theory Spec2Isabelle
  imports Complex_Main "HOL-Library.Sublist" "HOL-Library.AList"
begin

section \<open>Exceptions\<close>

text \<open>
  Python exceptions are values.  Each constructor stands for a class of the hierarchy the two
  modules dispatch on; the string is \<open>str(e)\<close>.  \<open>APIError\<close> stands for an \<open>openai.APIError\<close>
  that is neither an \<open>APIConnectionError\<close> nor a \<open>RateLimitError\<close> (both are subclasses of it
  and have \<open>except\<close> clauses of their own, tried first); \<open>Exception\<close> for any other subclass of
  \<open>Exception\<close>; \<open>BaseException\<close> for one outside \<open>Exception\<close> other than \<open>asyncio.CancelledError\<close>.
\<close>

datatype exn =
    CancelledError
  | BaseException string
  | Exception string
  | IndexError
  | APIError string
  | APIConnectionError string
  | RateLimitError string

fun str :: "exn \<Rightarrow> string" where
  "str CancelledError = []"
| "str (BaseException m) = m"
| "str (Exception m) = m"
| "str IndexError = ''list index out of range''"
| "str (APIError m) = m"
| "str (APIConnectionError m) = m"
| "str (RateLimitError m) = m"

fun isinstance_Exception :: "exn \<Rightarrow> bool" where
  \<comment> \<open>What \<open>except Exception\<close> catches: \<open>CancelledError\<close> derives from \<open>BaseException\<close> only.\<close>
  "isinstance_Exception CancelledError = False"
| "isinstance_Exception (BaseException m) = False"
| "isinstance_Exception e = True"

section \<open>Streaming aggregation: \<open>AsyncLLM.chat_completion\<close>\<close>

text \<open>
  Source: \<open>agent/stateless_llm/openai_compatible_llm.py\<close>.  The chunk types are those of the
  \<open>openai\<close> package; an attribute that is absent or \<open>None\<close> is \<open>None\<close> here.
\<close>

record function_delta =
  fn_name :: "string option"
  fn_arguments :: "string option"

record tool_call_delta =
  tc_index :: int
  tc_id :: "string option"
  tc_type :: "string option"
  tc_function :: "function_delta option"

record choice_delta =
  content :: "string option"
  tool_calls :: "tool_call_delta list option"

record chunk =
  choices :: "choice_delta list"

text \<open>The dictionaries built at lines 112 to 117, one per call index.\<close>

record function_data =
  name :: string
  arguments :: string

record tool_data =
  td_index :: int
  td_id :: "string option"
  td_type :: "string option"
  td_function :: function_data

text \<open>
  A Python dictionary with string keys, in insertion order; the values of the messages, tool
  schemas and events are kept as strings.
\<close>

type_synonym dict = "(string \<times> string) list"

datatype 'o item = Text string | ToolCalls "'o list"

datatype stream = Stream "chunk list" "exn option"

record request =
  req_messages :: "dict list"
  req_model :: string
  req_stream :: bool
  req_temperature :: real
  req_tools :: "dict list option"

record AsyncLLM =
  base_url :: string
  model :: string
  temperature :: real
  support_tools :: bool

record loop_state =
  in_tool_call :: bool
  accumulated_tool_calls :: "(int \<times> tool_data) list"
  final_text :: string

record 'o outcome =
  yielded :: "'o item list"
  raised :: "exn option"
  self_after :: AsyncLLM
  request_sent :: request
  stream_closed :: bool

definition truthy :: "string option \<Rightarrow> bool" where
  \<comment> \<open>Python truth of an optional \<open>str\<close>: neither \<open>None\<close> nor empty.\<close>
  "truthy v = (case v of None \<Rightarrow> False | Some s \<Rightarrow> s \<noteq> [])"

definition init :: "string \<Rightarrow> string \<Rightarrow> real \<Rightarrow> AsyncLLM" where
  \<comment> \<open>\<open>__init__\<close>, lines 45 to 54.\<close>
  "init model_name url temp =
     \<lparr>base_url = url, model = model_name, temperature = temp, support_tools = True\<rparr>"

definition merge_tool_call :: "(int \<times> tool_data) list \<Rightarrow> tool_call_delta \<Rightarrow> (int \<times> tool_data) list" where
  \<comment> \<open>Lines 110 to 126: the body of the loop over the fragments of one chunk.  The dictionary
      keeps insertion order: a new index goes last, an old one keeps its place.\<close>
  "merge_tool_call acc tool_call =
     (let index = tc_index tool_call;
          acc = (if map_of acc index = None
                 then AList.update index
                        \<lparr>td_index = index, td_id = tc_id tool_call, td_type = tc_type tool_call,
                         td_function = \<lparr>name = [], arguments = []\<rparr>\<rparr> acc
                 else acc);
          acc = (if truthy (tc_id tool_call)
                 then AList.map_entry index (\<lambda>d. d\<lparr>td_id := tc_id tool_call\<rparr>) acc
                 else acc)
      in
      let acc = (if truthy (tc_type tool_call)
                 then AList.map_entry index (\<lambda>d. d\<lparr>td_type := tc_type tool_call\<rparr>) acc
                 else acc)
      in
        (case tc_function tool_call of
           None \<Rightarrow> acc
         | Some f \<Rightarrow>
             (let acc = (case fn_name f of
                          None \<Rightarrow> acc
                        | Some n \<Rightarrow>
                            if n \<noteq> [] then
                              AList.map_entry index
                                (\<lambda>d. d\<lparr>td_function := (td_function d)\<lparr>name := n\<rparr>\<rparr>) acc
                            else acc)
              in
                (case fn_arguments f of
                   None \<Rightarrow> acc
                 | Some a \<Rightarrow>
                     if a \<noteq> [] then
                       AList.map_entry index
                         (\<lambda>d. d\<lparr>td_function :=
                                 (td_function d)\<lparr>arguments := arguments (td_function d) @ a\<rparr>\<rparr>) acc
                     else acc))))"

definition has_tool_calls :: "choice_delta \<Rightarrow> bool" where
  \<comment> \<open>Lines 102 to 105: the attribute is there and is a list that is not empty.\<close>
  "has_tool_calls delta = (case tool_calls delta of None \<Rightarrow> False | Some tcs \<Rightarrow> tcs \<noteq> [])"

definition collect_text :: "loop_state \<Rightarrow> chunk \<Rightarrow> loop_state" where
  \<comment> \<open>Lines 130 and 131.\<close>
  "collect_text st c =
     (case choices c of
        [] \<Rightarrow> st
      | choice # _ \<Rightarrow>
          (case content choice of
             None \<Rightarrow> st
           | Some s \<Rightarrow> if s \<noteq> [] then st\<lparr>final_text := final_text st @ s\<rparr> else st))"

definition process_chunk :: "bool \<Rightarrow> loop_state \<Rightarrow> chunk \<Rightarrow> exn + loop_state" where
  \<comment> \<open>Lines 101 to 131, one iteration.  \<open>chunk.choices[0]\<close> at line 103 raises \<open>IndexError\<close> on
      an empty list; line 130 checks the length first.\<close>
  "process_chunk tools_on st c =
     (if tools_on then
        (case choices c of
           [] \<Rightarrow> Inl IndexError
         | choice # _ \<Rightarrow>
             if has_tool_calls choice then
               Inr (st\<lparr>in_tool_call := True,
                       accumulated_tool_calls :=
                         foldl merge_tool_call (accumulated_tool_calls st)
                           (case tool_calls choice of None \<Rightarrow> [] | Some tcs \<Rightarrow> tcs)\<rparr>)
             else Inr (collect_text st c))
      else Inr (collect_text st c))"

fun consume :: "bool \<Rightarrow> chunk list \<Rightarrow> loop_state \<Rightarrow> exn + loop_state" where
  "consume tools_on [] st = Inr st"
| "consume tools_on (c # cs) st =
     (case process_chunk tools_on st c of
        Inl e \<Rightarrow> Inl e
      | Inr st' \<Rightarrow> consume tools_on cs st')"

fun iterate :: "bool \<Rightarrow> stream \<Rightarrow> loop_state \<Rightarrow> exn + loop_state" where
  \<comment> \<open>\<open>async for chunk in stream\<close>: the chunks in order, then the end of the stream or the
      exception the iteration raises.\<close>
  "iterate tools_on (Stream cs ending) st =
     (case consume tools_on cs st of
        Inl e \<Rightarrow> Inl e
      | Inr st' \<Rightarrow> (case ending of None \<Rightarrow> Inr st' | Some e \<Rightarrow> Inl e))"

definition final_result :: "(tool_data \<Rightarrow> 'o) \<Rightarrow> loop_state \<Rightarrow> 'o item" where
  \<comment> \<open>Lines 134 to 142.  \<open>from_dict\<close> is \<open>ToolCallObject.from_dict\<close>, of the module
      \<open>mcpp.types\<close>, whose source is not included: a parameter.\<close>
  "final_result from_dict st =
     (if in_tool_call st \<and> accumulated_tool_calls st \<noteq> []
      then ToolCalls (map (\<lambda>(i, tool_data). from_dict tool_data) (accumulated_tool_calls st))
      else Text (final_text st))"

definition build_request :: "AsyncLLM \<Rightarrow> dict list \<Rightarrow> string option \<Rightarrow> dict list option \<Rightarrow> request" where
  \<comment> \<open>Lines 77 to 95; \<open>None\<close> for the tools is \<open>NOT_GIVEN\<close>.\<close>
  "build_request self messages system tools =
     \<lparr>req_messages =
        (case system of
           None \<Rightarrow> messages
         | Some s \<Rightarrow>
             if s \<noteq> [] then [(''role'', ''system''), (''content'', s)] # messages
             else messages),
      req_model = model self,
      req_stream = True,
      req_temperature = temperature self,
      req_tools = (if support_tools self then tools else None)\<rparr>"

fun handle :: "exn \<Rightarrow> AsyncLLM \<Rightarrow> 'o item list \<times> exn option \<times> AsyncLLM" where
  \<comment> \<open>The \<open>except\<close> clauses, lines 144 to 158, in their order: what is yielded, what still
      propagates, and the instance afterwards.\<close>
  "handle (APIConnectionError m) self =
     ([Text ''Error calling the chat endpoint: Connection error.''], None, self)"
| "handle (RateLimitError m) self =
     ([Text ''Error calling the chat endpoint: Rate limit exceeded. Please try again later.''],
      None, self)"
| "handle (APIError m) self =
     (if sublist ''does not support tools'' m
      then ([Text ''__API_NOT_SUPPORT_TOOLS__''], None, self\<lparr>support_tools := False\<rparr>)
      else ([Text ''Error calling the chat endpoint: Error occurred while generating response.''],
            None, self))"
| "handle e self = ([], Some e, self)"

definition try_block ::
  "(tool_data \<Rightarrow> 'o) \<Rightarrow> (request \<Rightarrow> exn + stream) \<Rightarrow> AsyncLLM \<Rightarrow> dict list \<Rightarrow> string option
     \<Rightarrow> dict list option \<Rightarrow> (exn + 'o item) \<times> bool" where
  \<comment> \<open>The \<open>try\<close> block, lines 76 to 142: the item it yields or the exception it raises, and
      whether \<open>stream\<close> was assigned.  \<open>create\<close> is \<open>self.client.chat.completions.create\<close>.\<close>
  "try_block from_dict create self messages system tools =
     (case create (build_request self messages system tools) of
        Inl e \<Rightarrow> (Inl e, False)
      | Inr stream \<Rightarrow>
          (case iterate (support_tools self) stream
                  \<lparr>in_tool_call = False, accumulated_tool_calls = [], final_text = []\<rparr> of
             Inl e \<Rightarrow> (Inl e, True)
           | Inr st \<Rightarrow> (Inr (final_result from_dict st), True)))"

definition chat_completion ::
  "(tool_data \<Rightarrow> 'o) \<Rightarrow> (request \<Rightarrow> exn + stream) \<Rightarrow> AsyncLLM \<Rightarrow> dict list \<Rightarrow> string option
     \<Rightarrow> dict list option \<Rightarrow> 'o outcome" where
  \<comment> \<open>The generator driven until it is exhausted or raises: the \<open>try\<close> block, the \<open>except\<close>
      clauses, and the \<open>finally\<close> clause, which closes the stream when one was opened.\<close>
  "chat_completion from_dict create self messages system tools =
     (case try_block from_dict create self messages system tools of
        (Inr item, opened) \<Rightarrow>
          \<lparr>yielded = [item], raised = None, self_after = self,
           request_sent = build_request self messages system tools, stream_closed = opened\<rparr>
      | (Inl e, opened) \<Rightarrow>
          (case handle e self of
             (ys, r, self') \<Rightarrow>
               \<lparr>yielded = ys, raised = r, self_after = self',
                request_sent = build_request self messages system tools,
                stream_closed = opened\<rparr>))"

fun run_calls ::
  "(tool_data \<Rightarrow> 'o) \<Rightarrow> AsyncLLM
     \<Rightarrow> ((request \<Rightarrow> exn + stream) \<times> dict list \<times> string option \<times> dict list option) list
     \<Rightarrow> 'o outcome list" where
  \<comment> \<open>Successive calls on one instance, each driven to its end before the next.\<close>
  "run_calls from_dict self [] = []"
| "run_calls from_dict self ((create, messages, system, tools) # calls) =
     (let out = chat_completion from_dict create self messages system tools
      in out # run_calls from_dict (self_after out) calls)"

section \<open>Response normalisation: \<open>clean_response\<close>\<close>

text \<open>
  Source: \<open>conversations/single_conversation.py\<close>, \<open>clean_response\<close>.  A Python \<open>str\<close> is
  modelled as a \<open>string\<close>; a \<open>char\<close> stands for the code point of the same number (0 to 255).
\<close>

definition is_space :: "char \<Rightarrow> bool" where
  \<comment> \<open>The regex class \<open>\s\<close> on \<open>str\<close> patterns and the characters \<open>str.strip()\<close> removes:
      code points 9 to 13, 28 to 32, 133 and 160 (those below 256 with \<open>str.isspace()\<close>).\<close>
  "is_space c = (let n = (of_char c :: nat)
                 in (9 \<le> n \<and> n \<le> 13) \<or> (28 \<le> n \<and> n \<le> 32) \<or> n = 133 \<or> n = 160)"

definition is_punct :: "char \<Rightarrow> bool" where
  \<comment> \<open>The regex class \<open>[,\.!?;:]\<close>.\<close>
  "is_punct c = (c = CHR '','' \<or> c = CHR ''.'' \<or> c = CHR ''!'' \<or> c = CHR ''?''
                 \<or> c = CHR '';'' \<or> c = CHR '':'')"

fun find_close :: "string \<Rightarrow> string option" where
  \<comment> \<open>The regex \<open>.*?\]\<close> matched at the head of the text: the lazy \<open>.*?\<close> stops at the first
      \<open>]\<close>, and \<open>.\<close> does not match a line feed.  Returns the text after the \<open>]\<close>.\<close>
  "find_close [] = None"
| "find_close (c # cs) =
     (if c = CHR '']'' then Some cs
      else if c = CHR 0x0A then None
      else find_close cs)"

definition match_annotation :: "string \<Rightarrow> string option" where
  \<comment> \<open>The regex \<open>\s*\[.*?\]\s*\<close> matched at the head of the text; returns the text after
      the match.  Both \<open>\s*\<close> are greedy.\<close>
  "match_annotation s =
     (case dropWhile is_space s of
        [] \<Rightarrow> None
      | c # t \<Rightarrow>
          if c = CHR ''['' then
            (case find_close t of
               None \<Rightarrow> None
             | Some u \<Rightarrow> Some (dropWhile is_space u))
          else None)"

lemma find_close_length: "find_close s = Some u \<Longrightarrow> length u < length s"
  by (induction s) (auto split: if_splits)

lemma match_annotation_length: "match_annotation s = Some u \<Longrightarrow> length u < length s"
proof -
  assume a: "match_annotation s = Some u"
  then obtain t v where d: "dropWhile is_space s = CHR ''['' # t" and f: "find_close t = Some v"
    and u: "u = dropWhile is_space v"
    by (auto simp: match_annotation_def split: list.splits if_splits option.splits)
  have "length u \<le> length v" using u by (simp add: length_dropWhile_le)
  moreover have "length v < length t" using f by (rule find_close_length)
  moreover have "length (CHR ''['' # t) \<le> length s"
    using length_dropWhile_le [of is_space s] d by simp
  ultimately show ?thesis by simp
qed

function strip_annotations :: "string \<Rightarrow> string" where
  \<comment> \<open>\<open>re.sub(r"\s*\[.*?\]\s*", " ", text)\<close>: leftmost matches, not overlapping.\<close>
  "strip_annotations [] = []"
| "strip_annotations (c # cs) =
     (case match_annotation (c # cs) of
        Some rest \<Rightarrow> CHR '' '' # strip_annotations rest
      | None \<Rightarrow> c # strip_annotations cs)"
  by pat_completeness auto
termination
  by (relation "measure length") (auto dest: match_annotation_length)

fun space_after_punct :: "string \<Rightarrow> string" where
  \<comment> \<open>\<open>re.sub(r"([,\.!?;:])([^\s])", r"\1 \2", text)\<close>: a match consumes both characters.\<close>
  "space_after_punct (p # c # cs) =
     (if is_punct p \<and> \<not> is_space c then p # CHR '' '' # c # space_after_punct cs
      else p # space_after_punct (c # cs))"
| "space_after_punct cs = cs"

function collapse_whitespace :: "string \<Rightarrow> string" where
  \<comment> \<open>\<open>re.sub(r"\s+", " ", text)\<close>.\<close>
  "collapse_whitespace [] = []"
| "collapse_whitespace (c # cs) =
     (if is_space c then CHR '' '' # collapse_whitespace (dropWhile is_space cs)
      else c # collapse_whitespace cs)"
  by pat_completeness auto
termination
  by (relation "measure length") (auto simp: length_dropWhile_le less_Suc_eq_le)

definition strip :: "string \<Rightarrow> string" where
  \<comment> \<open>\<open>str.strip()\<close> with no argument.\<close>
  "strip s = rev (dropWhile is_space (rev (dropWhile is_space s)))"

definition clean_response :: "string \<Rightarrow> string" where
  "clean_response text =
     (let text = strip_annotations text;
          text = space_after_punct text
      in strip (collapse_whitespace text))"

section \<open>Turn orchestration: \<open>process_single_conversation\<close>\<close>

text \<open>
  Source: \<open>conversations/single_conversation.py\<close>.  The collaborators the function calls
  (\<open>conversation_utils\<close>, the agent engine, the TTS manager, the history store, the client
  socket) have their source elsewhere; the record \<open>env\<close> gives what each of their
  calls does: \<open>None\<close> or \<open>Inr\<close> when it returns, the exception when it raises.  A turn yields
  the trace of what its collaborators saw, in order, and its own result: \<open>Inr\<close> the returned
  string or \<open>Inl\<close> the exception that reaches the caller.
\<close>

datatype output_item =
    DictItem dict
  | SentenceOutput "string list" "exn option"
      \<comment> \<open>the \<open>tts_text\<close> of each triple its iteration yields, then how the iteration ends\<close>
  | AudioOutput "string list" "exn option"
      \<comment> \<open>the transcript of each tuple its iteration yields, then how the iteration ends\<close>
  | OtherItem

datatype agent_stream = AgentStream "output_item list" "exn option"

datatype event =
    StartSignals
  | InputProcessed
  | Stored string string
  | Sent dict
  | Spoke string
  | Gathered
  | Finalized
  | Cleanup
  | Raised exn
      \<comment> \<open>a collaborator raised this exception\<close>

type_synonym 'a res = "event list \<times> (exn + 'a)"

record service_context =
  history_uid :: "string option"
  conf_uid :: string
  human_name :: string
  character_name :: string
  avatar :: string

record env =
  send_conversation_start_signals :: "exn option"
  process_user_input :: "exn + string"
  store_message :: "string \<Rightarrow> string \<Rightarrow> exn option"
      \<comment> \<open>role and content\<close>
  agent_chat :: "string \<Rightarrow> agent_stream"
      \<comment> \<open>\<open>context.agent_engine.chat\<close> on the batch built from the input text\<close>
  websocket_send :: "dict \<Rightarrow> exn option"
      \<comment> \<open>the argument is the dictionary that \<open>json.dumps\<close> serialises\<close>
  speak :: "string \<Rightarrow> exn + nat"
      \<comment> \<open>\<open>tts_manager.speak\<close>; returns the length of \<open>tts_manager.task_list\<close> afterwards\<close>
  gather :: "exn option"
  finalize_conversation_turn :: "exn option"

definition call :: "event \<Rightarrow> exn option \<Rightarrow> unit res" where
  \<comment> \<open>A call made for its effect: the event when it returns, the exception when it raises.\<close>
  "call ev r = (case r of None \<Rightarrow> ([ev], Inr ()) | Some e \<Rightarrow> ([Raised e], Inl e))"

definition call_value :: "event \<Rightarrow> exn + 'a \<Rightarrow> 'a res" where
  "call_value ev r = (case r of Inr v \<Rightarrow> ([ev], Inr v) | Inl e \<Rightarrow> ([Raised e], Inl e))"

definition and_then :: "'a res \<Rightarrow> ('a \<Rightarrow> 'b res) \<Rightarrow> 'b res" where
  \<comment> \<open>Sequencing of two statements: an exception of the first skips the second.\<close>
  "and_then m f =
     (case m of
        (t, Inl e) \<Rightarrow> (t, Inl e)
      | (t, Inr v) \<Rightarrow> (case f v of (t', r) \<Rightarrow> (t @ t', r)))"

definition skip_history :: "(string \<times> bool) list option \<Rightarrow> bool" where
  \<comment> \<open>Line 71: \<open>metadata and metadata.get("skip_history", False)\<close>.\<close>
  "skip_history metadata =
     (case metadata of
        None \<Rightarrow> False
      | Some m \<Rightarrow> m \<noteq> [] \<and> (case map_of m ''skip_history'' of None \<Rightarrow> False | Some b \<Rightarrow> b))"

fun consume_item :: "env \<Rightarrow> service_context \<Rightarrow> string \<Rightarrow> output_item \<Rightarrow> event list \<times> string \<times> exn option" where
  \<comment> \<open>Lines 88 to 103, one output item: the trace, \<open>full_response\<close> afterwards, and the
      exception raised, if any.\<close>
  "consume_item env ctx full_response (DictItem d) =
     (if map_of d ''type'' = Some ''tool_call_status'' then
        (let d' = AList.update ''name'' (character_name ctx) d
         in case websocket_send env d' of
              None \<Rightarrow> ([Sent d'], full_response, None)
            | Some e \<Rightarrow> ([Raised e], full_response, Some e))
      else ([], full_response, None))"
| "consume_item env ctx full_response (SentenceOutput texts ending) =
     ((case ending of None \<Rightarrow> [] | Some e \<Rightarrow> [Raised e]),
      full_response @ concat texts, ending)"
| "consume_item env ctx full_response (AudioOutput transcripts ending) =
     ((case ending of None \<Rightarrow> [] | Some e \<Rightarrow> [Raised e]),
      full_response @ concat transcripts, ending)"
| "consume_item env ctx full_response OtherItem = ([], full_response, None)"

fun drain :: "env \<Rightarrow> service_context \<Rightarrow> output_item list \<Rightarrow> exn option \<Rightarrow> string \<Rightarrow> event list \<times> string \<times> exn option" where
  \<comment> \<open>\<open>async for output_item in agent_stream\<close>, lines 86 to 103.\<close>
  "drain env ctx [] ending full_response =
     (case ending of
        None \<Rightarrow> ([], full_response, None)
      | Some e \<Rightarrow> ([Raised e], full_response, Some e))"
| "drain env ctx (output_item # items) ending full_response =
     (case consume_item env ctx full_response output_item of
        (t, full_response', Some e) \<Rightarrow> (t, full_response', Some e)
      | (t, full_response', None) \<Rightarrow>
          (case drain env ctx items ending full_response' of
             (t', r) \<Rightarrow> (t @ t', r)))"

definition collect_response :: "env \<Rightarrow> service_context \<Rightarrow> string \<Rightarrow> string res" where
  \<comment> \<open>Step 4, lines 84 to 107: the inner \<open>try\<close> with its \<open>except Exception\<close>.\<close>
  "collect_response env ctx input_text =
     (case agent_chat env input_text of
        AgentStream items ending \<Rightarrow>
          (case drain env ctx items ending [] of
             (t, full_response, None) \<Rightarrow> (t, Inr full_response)
           | (t, full_response, Some e) \<Rightarrow>
               if isinstance_Exception e then
                 (case websocket_send env [(''type'', ''error''), (''message'', str e)] of
                    None \<Rightarrow>
                      (t @ [Sent [(''type'', ''error''), (''message'', str e)]], Inr full_response)
                  | Some e' \<Rightarrow> (t @ [Raised e'], Inl e'))
               else (t, Inl e)))"

definition synthesize_and_finalize :: "env \<Rightarrow> service_context \<Rightarrow> string \<Rightarrow> string res" where
  \<comment> \<open>Steps 6 to 9, lines 114 to 153.\<close>
  "synthesize_and_finalize env ctx cleaned_response =
     and_then
       (if cleaned_response \<noteq> []
        then call_value (Spoke cleaned_response) (speak env cleaned_response)
        else ([], Inr 0))
       (\<lambda>tasks.
     and_then
       (if tasks \<noteq> 0
        then and_then (call Gathered (gather env))
               (\<lambda>_. call (Sent [(''type'', ''backend-synth-complete'')])
                       (websocket_send env [(''type'', ''backend-synth-complete'')]))
        else ([], Inr ()))
       (\<lambda>_.
     and_then (call Finalized (finalize_conversation_turn env))
       (\<lambda>_.
     and_then
       (if truthy (history_uid ctx) \<and> cleaned_response \<noteq> []
        then call (Stored ''ai'' cleaned_response) (store_message env ''ai'' cleaned_response)
        else ([], Inr ()))
       (\<lambda>_. ([], Inr cleaned_response)))))"

definition turn_body :: "env \<Rightarrow> service_context \<Rightarrow> (string \<times> bool) list option \<Rightarrow> string res" where
  \<comment> \<open>The outer \<open>try\<close> block, lines 55 to 153.\<close>
  "turn_body env ctx metadata =
     and_then (call StartSignals (send_conversation_start_signals env))
       (\<lambda>_.
     and_then (call_value InputProcessed (process_user_input env))
       (\<lambda>input_text.
     and_then
       (if truthy (history_uid ctx) \<and> \<not> skip_history metadata
        then call (Stored ''human'' input_text) (store_message env ''human'' input_text)
        else ([], Inr ()))
       (\<lambda>_.
     and_then (collect_response env ctx input_text)
       (\<lambda>full_response.
          synthesize_and_finalize env ctx (clean_response full_response)))))"

definition cleanup_conversation :: "event list" where
  \<comment> \<open>Modelled from the spec: \<open>cleanup_conversation\<close> of \<open>conversation_utils\<close>, whose source is
      not included.  "Cleanup (always executed, all exit paths): release any TTS-manager
      resources, log/record turn-end telemetry keyed by the session's display token."  It
      leaves its mark in the trace and returns.\<close>
  "cleanup_conversation = [Cleanup]"

definition process_single_conversation :: "env \<Rightarrow> service_context \<Rightarrow> (string \<times> bool) list option \<Rightarrow> string res" where
  \<comment> \<open>Lines 54 to 160.  \<open>except asyncio.CancelledError\<close> logs and raises the exception again;
      \<open>finally\<close> runs \<open>cleanup_conversation\<close> after the body or the handler.\<close>
  "process_single_conversation env ctx metadata =
     (case turn_body env ctx metadata of
        (t, Inl CancelledError) \<Rightarrow> (t @ cleanup_conversation, Inl CancelledError)
      | (t, r) \<Rightarrow> (t @ cleanup_conversation, r))"

section \<open>Notions used in the statements\<close>

definition frag_name :: "tool_call_delta \<Rightarrow> string option" where
  \<comment> \<open>\<open>function.name\<close> of a fragment, \<open>None\<close> when \<open>function\<close> or \<open>name\<close> is.\<close>
  "frag_name tc = (case tc_function tc of None \<Rightarrow> None | Some f \<Rightarrow> fn_name f)"

definition frag_arguments :: "tool_call_delta \<Rightarrow> string option" where
  \<comment> \<open>\<open>function.arguments\<close> of a fragment, \<open>None\<close> when \<open>function\<close> or \<open>arguments\<close> is.\<close>
  "frag_arguments tc = (case tc_function tc of None \<Rightarrow> None | Some f \<Rightarrow> fn_arguments f)"


definition new_record :: "tool_call_delta \<Rightarrow> tool_data" where
  \<comment> \<open>The dictionary of lines 112 to 117.\<close>
  "new_record tc = \<lparr>td_index = tc_index tc, td_id = tc_id tc, td_type = tc_type tc,
                     td_function = \<lparr>name = [], arguments = []\<rparr>\<rparr>"

definition merge_record :: "tool_data \<Rightarrow> tool_call_delta \<Rightarrow> tool_data" where
  \<comment> \<open>What lines 118 to 126 do to the dictionary of the fragment's index.\<close>
  "merge_record d tc =
     \<lparr>td_index = td_index d,
      td_id = (if truthy (tc_id tc) then tc_id tc else td_id d),
      td_type = (if truthy (tc_type tc) then tc_type tc else td_type d),
      td_function =
        \<lparr>name = (case frag_name tc of
                   None \<Rightarrow> name (td_function d)
                 | Some n \<Rightarrow> if n \<noteq> [] then n else name (td_function d)),
         arguments = (case frag_arguments tc of
                        None \<Rightarrow> arguments (td_function d)
                      | Some a \<Rightarrow> arguments (td_function d) @ a)\<rparr>\<rparr>"


definition fragments_of :: "chunk \<Rightarrow> tool_call_delta list" where
  \<comment> \<open>The tool-call fragments a chunk carries in its first choice.\<close>
  "fragments_of c =
     (case choices c of
        [] \<Rightarrow> []
      | choice # _ \<Rightarrow> (case tool_calls choice of None \<Rightarrow> [] | Some tcs \<Rightarrow> tcs))"

definition text_of :: "chunk \<Rightarrow> string" where
  \<comment> \<open>The text delta a chunk carries in its first choice, empty when there is none.\<close>
  "text_of c =
     (case choices c of
        [] \<Rightarrow> []
      | choice # _ \<Rightarrow> (case content choice of None \<Rightarrow> [] | Some s \<Rightarrow> s))"

fun api_error :: "exn \<Rightarrow> bool" where
  \<comment> \<open>The exceptions of class \<open>openai.APIError\<close>.\<close>
  "api_error (APIError m) = True"
| "api_error (APIConnectionError m) = True"
| "api_error (RateLimitError m) = True"
| "api_error e = False"

definition listed_ending :: "bool \<Rightarrow> exn + stream \<Rightarrow> bool" where
  \<comment> \<open>What the backend does is a normal stream end or an API error (connection, rate limit,
      capability or other), raised by the request or by the iteration; when the tools are on,
      every chunk delivered carries a choice.\<close>
  "listed_ending tools_on response =
     (case response of
        Inl e \<Rightarrow> api_error e
      | Inr (Stream cs ending) \<Rightarrow>
          (tools_on \<longrightarrow> (\<forall>c \<in> set cs. choices c \<noteq> []))
          \<and> (case ending of None \<Rightarrow> True | Some e \<Rightarrow> api_error e))"

definition propagates :: "'a res \<Rightarrow> bool" where
  \<comment> \<open>No cleanup in the trace, and a cancellation raised by a collaborator is the result.\<close>
  "propagates m =
     (Cleanup \<notin> set (fst m) \<and> (Raised CancelledError \<in> set (fst m) \<longrightarrow> snd m = Inl CancelledError))"

definition error_event :: "exn \<Rightarrow> dict" where
  \<comment> \<open>The dictionary of line 107.\<close>
  "error_event e = [(''type'', ''error''), (''message'', str e)]"

definition before_streaming :: "service_context \<Rightarrow> (string \<times> bool) list option \<Rightarrow> string \<Rightarrow> event list" where
  \<comment> \<open>The trace of steps 1 to 3 when none of them raises.\<close>
  "before_streaming ctx metadata input_text =
     [StartSignals, InputProcessed]
     @ (if truthy (history_uid ctx) \<and> \<not> skip_history metadata
        then [Stored ''human'' input_text] else [])"

fun open_across_lines :: "string \<Rightarrow> bool" where
  \<comment> \<open>Some \<open>[\<close> is not closed on its own line, and a \<open>]\<close> follows on a later line.\<close>
  "open_across_lines [] = False"
| "open_across_lines (c # cs) =
     ((c = CHR ''['' \<and> find_close cs = None \<and> CHR '']'' \<in> set cs) \<or> open_across_lines cs)"

fun punct_run :: "string \<Rightarrow> bool" where
  \<comment> \<open>Two punctuation characters in a row stand directly before a character that is not
      white space.\<close>
  "punct_run (p # q # c # cs) =
     ((is_punct p \<and> is_punct q \<and> \<not> is_space c) \<or> punct_run (q # c # cs))"
| "punct_run cs = False"

fun has_pair :: "string \<Rightarrow> bool" where
  \<comment> \<open>Some \<open>[\<close> stands before some \<open>]\<close>.\<close>
  "has_pair [] = False"
| "has_pair (c # cs) = ((c = CHR ''['' \<and> CHR '']'' \<in> set cs) \<or> has_pair cs)"

fun tight :: "string \<Rightarrow> bool" where
  \<comment> \<open>Some punctuation character stands directly before a character that is not white space.\<close>
  "tight (p # c # cs) = ((is_punct p \<and> \<not> is_space c) \<or> tight (c # cs))"
| "tight cs = False"

fun spaced :: "string \<Rightarrow> bool" where
  \<comment> \<open>Every white space character is a blank that ends the text or stands before a
      character that is not white space.\<close>
  "spaced [] = True"
| "spaced (c # cs) =
     ((is_space c \<longrightarrow> c = CHR '' '' \<and> (cs = [] \<or> \<not> is_space (hd cs))) \<and> spaced cs)"

definition normalized :: "string \<Rightarrow> bool" where
  \<comment> \<open>White space is single blanks between other characters, none at either end.\<close>
  "normalized s = (spaced s \<and> (s = [] \<or> (\<not> is_space (hd s) \<and> \<not> is_space (last s))))"

definition count_open :: "string \<Rightarrow> nat" where
  \<comment> \<open>The number of \<open>[\<close> in the text.\<close>
  "count_open s = length (filter (\<lambda>c. c = CHR ''['') s)"

section \<open>The accumulator of tool calls\<close>

lemma map_of_merge_tool_call:
  "map_of (merge_tool_call acc tc) i =
     (if tc_index tc = i
      then Some (merge_record (case map_of acc i of None \<Rightarrow> new_record tc | Some d \<Rightarrow> d) tc)
      else map_of acc i)"
  by (cases "tc_function tc")
     (auto simp: merge_tool_call_def Let_def map_of_map_entry update_conv' merge_record_def
        new_record_def frag_name_def frag_arguments_def
        split: option.splits)

lemma distinct_merge_tool_call:
  "distinct (map fst acc) \<Longrightarrow> distinct (map fst (merge_tool_call acc tc))"
  by (auto simp: merge_tool_call_def Let_def distinct_update distinct_map_entry
        split: option.splits)

lemma distinct_foldl_merge_tool_call:
  "distinct (map fst acc) \<Longrightarrow> distinct (map fst (foldl merge_tool_call acc fs))"
  by (induction fs arbitrary: acc) (simp_all add: distinct_merge_tool_call)

lemma map_of_foldl_merge_present:
  "map_of acc i = Some d \<Longrightarrow>
   map_of (foldl merge_tool_call acc fs) i
     = Some (foldl merge_record d (filter (\<lambda>tc. tc_index tc = i) fs))"
  by (induction fs arbitrary: acc d) (simp_all add: map_of_merge_tool_call)

lemma map_of_foldl_merge:
  "map_of (foldl merge_tool_call acc fs) i =
     (case filter (\<lambda>tc. tc_index tc = i) fs of
        [] \<Rightarrow> map_of acc i
      | g # gs \<Rightarrow>
          Some (foldl merge_record (case map_of acc i of None \<Rightarrow> new_record g | Some d \<Rightarrow> d)
                  (g # gs)))"
proof (induction fs arbitrary: acc)
  case Nil
  then show ?case by simp
next
  case (Cons f fs)
  show ?case
  proof (cases "tc_index f = i")
    case True
    have "map_of (merge_tool_call acc f) i
            = Some (merge_record (case map_of acc i of None \<Rightarrow> new_record f | Some d \<Rightarrow> d) f)"
      using True by (simp add: map_of_merge_tool_call)
    then show ?thesis
      using True by (simp add: map_of_foldl_merge_present)
  next
    case False
    then show ?thesis
      using Cons.IH [of "merge_tool_call acc f"]
      by (simp add: map_of_merge_tool_call split: list.splits)
  qed
qed

lemma map_of_foldl_merge_fresh:
  assumes "filter (\<lambda>tc. tc_index tc = i) fs = g # gs"
  shows "map_of (foldl merge_tool_call [] fs) i = Some (foldl merge_record (new_record g) (g # gs))"
  using assms by (simp add: map_of_foldl_merge)











section \<open>The result of a stream\<close>

lemma collect_text_eq: "collect_text st c = st\<lparr>final_text := final_text st @ text_of c\<rparr>"
  by (simp add: collect_text_def text_of_def split: list.splits option.splits)

lemma process_chunk_tools_on:
  assumes "choices c \<noteq> []"
  shows "process_chunk True st c =
     Inr (if fragments_of c \<noteq> []
          then st\<lparr>in_tool_call := True,
                  accumulated_tool_calls :=
                    foldl merge_tool_call (accumulated_tool_calls st) (fragments_of c)\<rparr>
          else st\<lparr>final_text := final_text st @ text_of c\<rparr>)"
  using assms
  by (auto simp: process_chunk_def has_tool_calls_def fragments_of_def collect_text_eq
        split: list.splits option.splits)

text \<open>
  With tool support on, a chunk without choices ends the loop with \<open>IndexError\<close> (line 103);
  with tool support off it is skipped (line 130).
\<close>

lemma process_chunk_no_choices:
  "process_chunk True st \<lparr>choices = []\<rparr> = Inl IndexError"
  "process_chunk False st \<lparr>choices = []\<rparr> = Inr st"
  by (simp_all add: process_chunk_def collect_text_def)

lemma consume_tools_on:
  assumes "\<forall>c \<in> set cs. choices c \<noteq> []"
  shows "consume True cs st =
     Inr \<lparr>in_tool_call = (in_tool_call st \<or> (\<exists>c \<in> set cs. fragments_of c \<noteq> [])),
          accumulated_tool_calls =
            foldl merge_tool_call (accumulated_tool_calls st) (concat (map fragments_of cs)),
          final_text =
            final_text st @ concat (map text_of (filter (\<lambda>c. fragments_of c = []) cs))\<rparr>"
  using assms
proof (induction cs arbitrary: st)
  case Nil
  then show ?case by simp
next
  case (Cons c cs)
  have c: "choices c \<noteq> []" and cs: "\<forall>c \<in> set cs. choices c \<noteq> []"
    using Cons.prems by simp_all
  show ?case
  proof (cases "fragments_of c = []")
    case True
    then show ?thesis
      using Cons.IH [OF cs] by (simp add: process_chunk_tools_on [OF c])
  next
    case False
    then show ?thesis
      using Cons.IH [OF cs] by (simp add: process_chunk_tools_on [OF c])
  qed
qed

lemma foldl_merge_tool_call_not_empty:
  assumes "fs \<noteq> []"
  shows "foldl merge_tool_call [] fs \<noteq> []"
proof -
  obtain f fs' where fs: "fs = f # fs'"
    using assms by (cases fs) auto
  then obtain gs where "filter (\<lambda>tc. tc_index tc = tc_index f) fs = f # gs"
    by simp
  then have "map_of (foldl merge_tool_call [] fs) (tc_index f) \<noteq> None"
    by (simp add: map_of_foldl_merge_fresh)
  then show ?thesis by auto
qed

text \<open>
  With tool support on, for a stream that ends normally and whose chunks all carry a choice:
  when no chunk carries a tool-call fragment, the one item yielded is the text, the
  concatenation of the text deltas; when some chunk carries one, at least one record has been
  accumulated and the one item yielded is the list of the accumulated records, in the order
  of their first fragment, built from the fragments alone, whatever text deltas come in
  between.
\<close>

lemma final_result_text_or_tool_calls:
  assumes "support_tools self"
    and "create (build_request self messages system tools) = Inr (Stream cs None)"
    and "\<forall>c \<in> set cs. choices c \<noteq> []"
  shows "((\<forall>c \<in> set cs. fragments_of c = []) \<longrightarrow>
            yielded (chat_completion from_dict create self messages system tools)
              = [Text (concat (map text_of cs))])
       \<and> ((\<exists>c \<in> set cs. fragments_of c \<noteq> []) \<longrightarrow>
            foldl merge_tool_call [] (concat (map fragments_of cs)) \<noteq> []
          \<and> yielded (chat_completion from_dict create self messages system tools)
              = [ToolCalls (map (\<lambda>(i, tool_data). from_dict tool_data)
                   (foldl merge_tool_call [] (concat (map fragments_of cs))))])"
proof -
  let ?st0 = "\<lparr>in_tool_call = False, accumulated_tool_calls = [], final_text = []\<rparr>"
  let ?acc = "foldl merge_tool_call [] (concat (map fragments_of cs))"
  have it: "iterate True (Stream cs None) ?st0 =
     Inr \<lparr>in_tool_call = (\<exists>c \<in> set cs. fragments_of c \<noteq> []),
          accumulated_tool_calls = ?acc,
          final_text = concat (map text_of (filter (\<lambda>c. fragments_of c = []) cs))\<rparr>"
    using consume_tools_on [OF assms(3), of ?st0] by simp
  have y: "yielded (chat_completion from_dict create self messages system tools) =
     [final_result from_dict
        \<lparr>in_tool_call = (\<exists>c \<in> set cs. fragments_of c \<noteq> []),
         accumulated_tool_calls = ?acc,
         final_text = concat (map text_of (filter (\<lambda>c. fragments_of c = []) cs))\<rparr>]"
    using assms(1,2) it by (simp add: chat_completion_def try_block_def)
  show ?thesis
  proof (intro conjI impI)
    assume t: "\<forall>c \<in> set cs. fragments_of c = []"
    then have "filter (\<lambda>c. fragments_of c = []) cs = cs"
      by (simp add: filter_id_conv)
    then show "yielded (chat_completion from_dict create self messages system tools)
              = [Text (concat (map text_of cs))]"
      using y t by (simp add: final_result_def)
  next
    assume e: "\<exists>c \<in> set cs. fragments_of c \<noteq> []"
    then have "concat (map fragments_of cs) \<noteq> []" by auto
    then show ne: "?acc \<noteq> []" by (rule foldl_merge_tool_call_not_empty)
    show "yielded (chat_completion from_dict create self messages system tools)
              = [ToolCalls (map (\<lambda>(i, tool_data). from_dict tool_data) ?acc)]"
      using y e ne by (simp add: final_result_def)
  qed
qed

text \<open>
  For instance at a stream of text deltas only, and at a stream where two text deltas are
  interleaved with the two fragments of one call.
\<close>

lemma final_result_text_or_tool_calls_example:
  "yielded (chat_completion (\<lambda>d. d)
      (\<lambda>r. Inr (Stream [\<lparr>choices = [\<lparr>content = Some ''Hel'', tool_calls = None\<rparr>]\<rparr>,
                         \<lparr>choices = [\<lparr>content = None, tool_calls = Some []\<rparr>]\<rparr>,
                         \<lparr>choices = [\<lparr>content = Some ''lo'', tool_calls = None\<rparr>]\<rparr>] None))
      (init ''model'' ''url'' 1) [] None None)
     = [Text ''Hello'']
   \<and> yielded (chat_completion (\<lambda>d. d)
      (\<lambda>r. Inr (Stream [\<lparr>choices = [\<lparr>content = Some ''Hi'', tool_calls = None\<rparr>]\<rparr>,
                         \<lparr>choices = [\<lparr>content = None, tool_calls = Some
                            [\<lparr>tc_index = 0, tc_id = Some ''call_1'', tc_type = Some ''function'',
                              tc_function = Some \<lparr>fn_name = Some ''f'',
                                                  fn_arguments = Some ''{\"a\":''\<rparr>\<rparr>]\<rparr>]\<rparr>,
                         \<lparr>choices = [\<lparr>content = Some '' there'', tool_calls = None\<rparr>]\<rparr>,
                         \<lparr>choices = [\<lparr>content = None, tool_calls = Some
                            [\<lparr>tc_index = 0, tc_id = None, tc_type = None,
                              tc_function = Some \<lparr>fn_name = None,
                                                  fn_arguments = Some ''1}''\<rparr>\<rparr>]\<rparr>]\<rparr>] None))
      (init ''model'' ''url'' 1) [] None None)
     = [ToolCalls [\<lparr>td_index = 0, td_id = Some ''call_1'', td_type = Some ''function'',
                    td_function = \<lparr>name = ''f'', arguments = ''{\"a\":1}''\<rparr>\<rparr>]]"
proof -
  let ?self = "init ''model'' ''url'' 1"
  let ?cs1 = "[\<lparr>choices = [\<lparr>content = Some ''Hel'', tool_calls = None\<rparr>]\<rparr>,
               \<lparr>choices = [\<lparr>content = None, tool_calls = Some []\<rparr>]\<rparr>,
               \<lparr>choices = [\<lparr>content = Some ''lo'', tool_calls = None\<rparr>]\<rparr>]"
  let ?cs2 = "[\<lparr>choices = [\<lparr>content = Some ''Hi'', tool_calls = None\<rparr>]\<rparr>,
               \<lparr>choices = [\<lparr>content = None, tool_calls = Some
                  [\<lparr>tc_index = 0, tc_id = Some ''call_1'', tc_type = Some ''function'',
                    tc_function = Some \<lparr>fn_name = Some ''f'',
                                        fn_arguments = Some ''{\"a\":''\<rparr>\<rparr>]\<rparr>]\<rparr>,
               \<lparr>choices = [\<lparr>content = Some '' there'', tool_calls = None\<rparr>]\<rparr>,
               \<lparr>choices = [\<lparr>content = None, tool_calls = Some
                  [\<lparr>tc_index = 0, tc_id = None, tc_type = None,
                    tc_function = Some \<lparr>fn_name = None,
                                        fn_arguments = Some ''1}''\<rparr>\<rparr>]\<rparr>]\<rparr>]"
  have sup: "support_tools ?self" by (simp add: init_def)
  have r1: "(\<lambda>r. Inr (Stream ?cs1 None)) (build_request ?self [] None None) = Inr (Stream ?cs1 None)"
    by simp
  have r2: "(\<lambda>r. Inr (Stream ?cs2 None)) (build_request ?self [] None None) = Inr (Stream ?cs2 None)"
    by simp
  have wf1: "\<forall>c \<in> set ?cs1. choices c \<noteq> []" by simp
  have wf2: "\<forall>c \<in> set ?cs2. choices c \<noteq> []" by simp
  have t1: "\<forall>c \<in> set ?cs1. fragments_of c = []" by (simp add: fragments_of_def)
  have t2: "\<exists>c \<in> set ?cs2. fragments_of c \<noteq> []" by (simp add: fragments_of_def)
  have a: "yielded (chat_completion (\<lambda>d. d) (\<lambda>r. Inr (Stream ?cs1 None)) ?self [] None None)
             = [Text (concat (map text_of ?cs1))]"
    using final_result_text_or_tool_calls [OF sup r1 wf1, of "\<lambda>d. d"] t1 by blast
  have b: "yielded (chat_completion (\<lambda>d. d) (\<lambda>r. Inr (Stream ?cs2 None)) ?self [] None None)
             = [ToolCalls (map (\<lambda>(i, tool_data). tool_data)
                   (foldl merge_tool_call [] (concat (map fragments_of ?cs2))))]"
    using final_result_text_or_tool_calls [OF sup r2 wf2, of "\<lambda>d. d"] t2 by blast
  have a': "concat (map text_of ?cs1) = ''Hello''"
    by (simp add: text_of_def)
  have b': "map (\<lambda>(i, tool_data). tool_data) (foldl merge_tool_call [] (concat (map fragments_of ?cs2)))
           = [\<lparr>td_index = 0, td_id = Some ''call_1'', td_type = Some ''function'',
                    td_function = \<lparr>name = ''f'', arguments = ''{\"a\":1}''\<rparr>\<rparr>]"
    by (simp add: fragments_of_def merge_tool_call_def truthy_def)
  show ?thesis
    using a b a' b' by simp
qed

text \<open>
  Claim C1 says that a stream of text deltas yields the accumulated text, and that a stream
  with a tool-call fragment yields the list of the accumulated records.  The code breaks both
  as soon as the stream holds a chunk without choices: with tool support on, line 103 reads
  \<open>chunk.choices[0]\<close> before anything checks the length (line 130 does check it), the
  \<open>IndexError\<close> leaves the generator, and nothing is yielded, neither the record accumulated
  from the fragment before nor the text.
\<close>

theorem no_choices_yields_nothing:
  "yielded (chat_completion (\<lambda>d. d)
      (\<lambda>r. Inr (Stream [\<lparr>choices = [\<lparr>content = None, tool_calls = Some
                            [\<lparr>tc_index = 0, tc_id = Some ''call_1'', tc_type = Some ''function'',
                              tc_function = Some \<lparr>fn_name = Some ''f'',
                                                  fn_arguments = Some ''{}''\<rparr>\<rparr>]\<rparr>]\<rparr>,
                         \<lparr>choices = []\<rparr>] None))
      (init ''model'' ''url'' 1) [] None None) = []
   \<and> raised (chat_completion (\<lambda>d. d)
      (\<lambda>r. Inr (Stream [\<lparr>choices = [\<lparr>content = None, tool_calls = Some
                            [\<lparr>tc_index = 0, tc_id = Some ''call_1'', tc_type = Some ''function'',
                              tc_function = Some \<lparr>fn_name = Some ''f'',
                                                  fn_arguments = Some ''{}''\<rparr>\<rparr>]\<rparr>]\<rparr>,
                         \<lparr>choices = []\<rparr>] None))
      (init ''model'' ''url'' 1) [] None None) = Some IndexError
   \<and> yielded (chat_completion (\<lambda>d. d)
      (\<lambda>r. Inr (Stream [\<lparr>choices = [\<lparr>content = Some ''a'', tool_calls = None\<rparr>]\<rparr>,
                         \<lparr>choices = []\<rparr>,
                         \<lparr>choices = [\<lparr>content = Some ''b'', tool_calls = None\<rparr>]\<rparr>] None))
      (init ''model'' ''url'' 1) [] None None) = []
   \<and> raised (chat_completion (\<lambda>d. d)
      (\<lambda>r. Inr (Stream [\<lparr>choices = [\<lparr>content = Some ''a'', tool_calls = None\<rparr>]\<rparr>,
                         \<lparr>choices = []\<rparr>,
                         \<lparr>choices = [\<lparr>content = Some ''b'', tool_calls = None\<rparr>]\<rparr>] None))
      (init ''model'' ''url'' 1) [] None None) = Some IndexError"
  by (simp add: chat_completion_def try_block_def process_chunk_def has_tool_calls_def
        collect_text_def init_def)

section \<open>Faults of the backend\<close>

lemma consume_tools_off: "\<exists>st'. consume False cs st = Inr st'"
  by (induction cs arbitrary: st) (simp_all add: process_chunk_def)

lemma consume_returns:
  assumes "tools_on \<longrightarrow> (\<forall>c \<in> set cs. choices c \<noteq> [])"
  shows "\<exists>st'. consume tools_on cs st = Inr st'"
proof (cases tools_on)
  case True
  then show ?thesis using assms consume_tools_on [of cs st] by simp
next
  case False
  then show ?thesis using consume_tools_off [of cs st] by simp
qed

lemma handle_api_error:
  "api_error e \<Longrightarrow> \<exists>s self'. handle e self = ([Text s], None, self')"
  by (cases e) simp_all

lemma handle_not_raised:
  "handle e self = (ys, None, self') \<Longrightarrow> \<exists>item. ys = [item]"
  by (cases e) (auto split: if_splits)

lemma try_block_listed:
  assumes "listed_ending (support_tools self) (create (build_request self messages system tools))"
  shows "(\<exists>item. fst (try_block from_dict create self messages system tools) = Inr item)
       \<or> (\<exists>e. fst (try_block from_dict create self messages system tools) = Inl e \<and> api_error e)"
proof (cases "create (build_request self messages system tools)")
  case (Inl e)
  then show ?thesis using assms by (simp add: try_block_def listed_ending_def)
next
  case (Inr s)
  obtain cs ending where s: "s = Stream cs ending" by (cases s) auto
  have wf: "support_tools self \<longrightarrow> (\<forall>c \<in> set cs. choices c \<noteq> [])"
    and en: "case ending of None \<Rightarrow> True | Some e \<Rightarrow> api_error e"
    using assms Inr s by (simp_all add: listed_ending_def)
  obtain st' where st': "consume (support_tools self) cs
        \<lparr>in_tool_call = False, accumulated_tool_calls = [], final_text = []\<rparr> = Inr st'"
    using consume_returns [OF wf] by blast
  show ?thesis
    using Inr s st' en by (cases ending) (simp_all add: try_block_def)
qed

text \<open>
  Claim C10.  An invocation that runs to completion, that is, whose generator is exhausted
  without raising, yields exactly one item.  And the invocation does run to completion
  whenever the backend ends the stream normally or raises an API error (connection, rate
  limit, capability or any other), from the request or during the iteration, every chunk
  delivered before carrying a choice when tool support is on.
\<close>

theorem yields_exactly_one_item:
  "(raised (chat_completion (from_dict :: tool_data \<Rightarrow> 'o) create self messages system tools) = None \<longrightarrow>
      (\<exists>item. yielded (chat_completion from_dict create self messages system tools) = [item]))
   \<and> (listed_ending (support_tools self) (create (build_request self messages system tools)) \<longrightarrow>
      raised (chat_completion from_dict create self messages system tools) = None)"
proof (intro conjI impI)
  assume r: "raised (chat_completion from_dict create self messages system tools) = None"
  obtain res opened where t: "try_block from_dict create self messages system tools = (res, opened)"
    by (cases "try_block from_dict create self messages system tools") auto
  show "\<exists>item. yielded (chat_completion from_dict create self messages system tools) = [item]"
  proof (cases res)
    case (Inr item)
    then show ?thesis using t by (simp add: chat_completion_def)
  next
    case (Inl e)
    obtain ys :: "'o item list" and r' self' where h: "handle e self = (ys, r', self')"
      by (cases "handle e self :: 'o item list \<times> exn option \<times> AsyncLLM" rule: prod_cases3) auto
    have "r' = None" using r t Inl h by (simp add: chat_completion_def)
    then have "\<exists>item. ys = [item]" using h handle_not_raised by blast
    then show ?thesis using t Inl h by (simp add: chat_completion_def)
  qed
next
  assume l: "listed_ending (support_tools self) (create (build_request self messages system tools))"
  obtain res opened where t: "try_block from_dict create self messages system tools = (res, opened)"
    by (cases "try_block from_dict create self messages system tools") auto
  from try_block_listed [of self create messages system tools from_dict] l t
  consider item where "res = Inr item" | e where "res = Inl e" "api_error e"
    by auto
  then show "raised (chat_completion from_dict create self messages system tools) = None"
  proof cases
    case 1
    then show ?thesis using t by (simp add: chat_completion_def)
  next
    case 2
    obtain s self' where "handle e self = ([Text s] :: 'o item list, None, self')"
      using handle_api_error [OF 2(2)] by blast
    then show ?thesis using t 2(1) by (simp add: chat_completion_def)
  qed
qed

text \<open>
  The theorem at a stream that delivers one text delta and then raises a rate-limit error.
\<close>

theorem yields_exactly_one_item_witness:
  "raised (chat_completion (\<lambda>d. d)
      (\<lambda>r. Inr (Stream [\<lparr>choices = [\<lparr>content = Some ''Hi'', tool_calls = None\<rparr>]\<rparr>]
                   (Some (RateLimitError ''429''))))
      (init ''model'' ''url'' 1) [] None None) = None
   \<and> (\<exists>item. yielded (chat_completion (\<lambda>d. d)
      (\<lambda>r. Inr (Stream [\<lparr>choices = [\<lparr>content = Some ''Hi'', tool_calls = None\<rparr>]\<rparr>]
                   (Some (RateLimitError ''429''))))
      (init ''model'' ''url'' 1) [] None None) = [item])"
proof -
  let ?create = "\<lambda>r :: request. (Inr (Stream [\<lparr>choices = [\<lparr>content = Some ''Hi'', tool_calls = None\<rparr>]\<rparr>]
                   (Some (RateLimitError ''429''))) :: exn + stream)"
  let ?self = "init ''model'' ''url'' 1"
  have l: "listed_ending (support_tools ?self) (?create (build_request ?self [] None None))"
    by (simp add: listed_ending_def)
  note th = yields_exactly_one_item [of "\<lambda>d. d" ?create ?self "[]" None None]
  have r: "raised (chat_completion (\<lambda>d. d) ?create ?self [] None None) = None"
    using th [THEN conjunct2] l by (rule mp)
  have e: "\<exists>item. yielded (chat_completion (\<lambda>d. d) ?create ?self [] None None) = [item]"
    using th [THEN conjunct1] r by (rule mp)
  show ?thesis
    using r e by (rule conjI)
qed

lemma handle_tools_off:
  "\<not> support_tools self \<Longrightarrow> handle e self = (ys, r, self') \<Longrightarrow> \<not> support_tools self'"
  by (cases e) (auto split: if_splits)

lemma chat_completion_tools_off:
  assumes "\<not> support_tools self"
  shows "req_tools (request_sent (chat_completion from_dict create self messages system tools)) = None
       \<and> \<not> support_tools (self_after (chat_completion from_dict create self messages system tools))"
proof -
  obtain res opened where t: "try_block from_dict create self messages system tools = (res, opened)"
    by (cases "try_block from_dict create self messages system tools") auto
  show ?thesis
  proof (cases res)
    case (Inr item)
    then show ?thesis using t assms by (simp add: chat_completion_def build_request_def)
  next
    case (Inl e)
    obtain ys :: "'a item list" and r self' where h: "handle e self = (ys, r, self')"
      by (cases "handle e self :: 'a item list \<times> exn option \<times> AsyncLLM" rule: prod_cases3) auto
    then have "\<not> support_tools self'" using assms handle_tools_off by blast
    then show ?thesis using t Inl h assms by (simp add: chat_completion_def build_request_def)
  qed
qed

lemma run_calls_tools_off:
  "\<not> support_tools self \<Longrightarrow> out \<in> set (run_calls from_dict self calls) \<Longrightarrow>
   req_tools (request_sent out) = None \<and> \<not> support_tools (self_after out)"
proof (induction calls arbitrary: self)
  case Nil
  then show ?case by simp
next
  case (Cons call calls)
  obtain create messages system tools where call: "call = (create, messages, system, tools)"
    by (cases call) auto
  let ?o = "chat_completion from_dict create self messages system tools"
  have off: "req_tools (request_sent ?o) = None \<and> \<not> support_tools (self_after ?o)"
    using Cons.prems(1) by (rule chat_completion_tools_off)
  from Cons.prems(2) call have "out = ?o \<or> out \<in> set (run_calls from_dict (self_after ?o) calls)"
    by (simp add: Let_def)
  then show ?case
  proof
    assume "out = ?o"
    then show ?thesis using off by simp
  next
    assume "out \<in> set (run_calls from_dict (self_after ?o) calls)"
    then show ?thesis using Cons.IH [of "self_after ?o"] off by blast
  qed
qed

text \<open>
  Claim C4.  When the \<open>try\<close> block of a call raises an \<open>APIError\<close> whose message contains
  \<open>does not support tools\<close>, the call yields the sentinel \<open>__API_NOT_SUPPORT_TOOLS__\<close> and
  nothing else, and raises nothing; \<open>support_tools\<close> of the instance is false afterwards;
  and in every sequence of later calls on the instance, whatever they are given and whatever
  the backend does, each call sends a request without tools and leaves the flag false.
\<close>

theorem capability_fault_disables_tools:
  assumes "fst (try_block from_dict create self messages system tools) = Inl (APIError m)"
    and "sublist ''does not support tools'' m"
  shows "yielded (chat_completion from_dict create self messages system tools)
           = [Text ''__API_NOT_SUPPORT_TOOLS__'']
       \<and> raised (chat_completion from_dict create self messages system tools) = None
       \<and> \<not> support_tools (self_after (chat_completion from_dict create self messages system tools))
       \<and> (\<forall>calls. \<forall>out \<in> set (run_calls from_dict
                  (self_after (chat_completion from_dict create self messages system tools)) calls).
             req_tools (request_sent out) = None \<and> \<not> support_tools (self_after out))"
proof -
  let ?o = "chat_completion from_dict create self messages system tools"
  obtain opened where t: "try_block from_dict create self messages system tools = (Inl (APIError m), opened)"
    using assms(1) by (cases "try_block from_dict create self messages system tools") auto
  have y: "yielded ?o = [Text ''__API_NOT_SUPPORT_TOOLS__'']"
    and r: "raised ?o = None"
    and s: "\<not> support_tools (self_after ?o)"
    using t assms(2) by (simp_all add: chat_completion_def)
  have "\<forall>calls. \<forall>out \<in> set (run_calls from_dict (self_after ?o) calls).
          req_tools (request_sent out) = None \<and> \<not> support_tools (self_after out)"
    using s run_calls_tools_off by blast
  then show ?thesis using y r s by blast
qed

text \<open>
  The theorem at an instance whose first request is refused with
  \<open>llama3 does not support tools\<close>, followed by a second call with the same tools.
\<close>

theorem capability_fault_disables_tools_witness:
  "map (\<lambda>out. (yielded out, raised out, req_tools (request_sent out), support_tools (self_after out)))
     (run_calls (\<lambda>d. d) (init ''model'' ''url'' 1)
        [(\<lambda>r. Inl (APIError ''llama3 does not support tools''), [], None, Some [[(''type'', ''function'')]]),
         (\<lambda>r. Inr (Stream [\<lparr>choices = [\<lparr>content = Some ''Hi'', tool_calls = None\<rparr>]\<rparr>] None),
          [], None, Some [[(''type'', ''function'')]])])
   = [([Text ''__API_NOT_SUPPORT_TOOLS__''], None, Some [[(''type'', ''function'')]], False),
      ([Text ''Hi''], None, None, False)]"
proof -
  let ?self = "init ''model'' ''url'' 1"
  let ?tools = "Some [[(''type'', ''function'')]] :: dict list option"
  let ?create = "\<lambda>r :: request. (Inl (APIError ''llama3 does not support tools'') :: exn + stream)"
  let ?create2 = "\<lambda>r :: request. (Inr (Stream [\<lparr>choices = [\<lparr>content = Some ''Hi'', tool_calls = None\<rparr>]\<rparr>] None) :: exn + stream)"
  let ?o = "chat_completion (\<lambda>d. d) ?create ?self [] None ?tools"
  have h1: "fst (try_block (\<lambda>d. d) ?create ?self [] None ?tools)
              = Inl (APIError ''llama3 does not support tools'')"
    by (simp add: try_block_def)
  have h2: "sublist ''does not support tools'' ''llama3 does not support tools''"
    by code_simp
  note c = capability_fault_disables_tools [OF h1 h2]
  have first: "yielded ?o = [Text ''__API_NOT_SUPPORT_TOOLS__''] \<and> raised ?o = None
      \<and> \<not> support_tools (self_after ?o)"
    using c by blast
  let ?o2 = "chat_completion (\<lambda>d. d) ?create2 (self_after ?o) [] None ?tools"
  have "?o2 \<in> set (run_calls (\<lambda>d. d) (self_after ?o) [(?create2, [], None, ?tools)])"
    by (simp add: Let_def)
  then have second: "req_tools (request_sent ?o2) = None \<and> \<not> support_tools (self_after ?o2)"
    using c by blast
  have sent: "req_tools (request_sent ?o) = ?tools"
    by (simp add: chat_completion_def try_block_def build_request_def init_def)
  have y2: "yielded ?o2 = [Text ''Hi''] \<and> raised ?o2 = None"
    using first
    by (simp add: chat_completion_def try_block_def process_chunk_def collect_text_def
          final_result_def)
  show ?thesis
    using first second sent y2 by (simp add: Let_def)
qed

text \<open>
  Claim C5, as amended.  A connection error or a rate-limit error raised during the iteration
  of the stream does not leave \<open>chat_completion\<close>: the stream ends there and is closed, and
  the one item yielded is a fixed error string, \<open>Error calling the chat endpoint: Connection
  error.\<close> or \<open>Error calling the chat endpoint: Rate limit exceeded. Please try again
  later.\<close>; the text accumulated so far is dropped.
\<close>

theorem fault_yields_error_string:
  assumes "create (build_request self messages system tools) = Inr (Stream cs (Some e))"
    and "e = APIConnectionError m \<or> e = RateLimitError m"
    and "support_tools self \<longrightarrow> (\<forall>c \<in> set cs. choices c \<noteq> [])"
  shows "raised (chat_completion from_dict create self messages system tools) = None
       \<and> stream_closed (chat_completion from_dict create self messages system tools)
       \<and> yielded (chat_completion from_dict create self messages system tools)
           = [Text (if e = APIConnectionError m
                    then ''Error calling the chat endpoint: Connection error.''
                    else ''Error calling the chat endpoint: Rate limit exceeded. Please try again later.'')]"
proof -
  obtain st' where "consume (support_tools self) cs
        \<lparr>in_tool_call = False, accumulated_tool_calls = [], final_text = []\<rparr> = Inr st'"
    using consume_returns [OF assms(3)] by blast
  then have t: "try_block from_dict create self messages system tools = (Inl e, True)"
    using assms(1) by (simp add: try_block_def)
  show ?thesis
    using assms(2) t by (auto simp: chat_completion_def)
qed

text \<open>
  The theorem at a stream that delivers the text delta \<open>Hi\<close> and then raises a rate-limit
  error.
\<close>

theorem fault_yields_error_string_witness:
  "yielded (chat_completion (\<lambda>d. d)
      (\<lambda>r. Inr (Stream [\<lparr>choices = [\<lparr>content = Some ''Hi'', tool_calls = None\<rparr>]\<rparr>]
                   (Some (RateLimitError ''429''))))
      (init ''model'' ''url'' 1) [] None None)
     = [Text ''Error calling the chat endpoint: Rate limit exceeded. Please try again later.'']
   \<and> raised (chat_completion (\<lambda>d. d)
      (\<lambda>r. Inr (Stream [\<lparr>choices = [\<lparr>content = Some ''Hi'', tool_calls = None\<rparr>]\<rparr>]
                   (Some (RateLimitError ''429''))))
      (init ''model'' ''url'' 1) [] None None) = None"
proof -
  let ?cs = "[\<lparr>choices = [\<lparr>content = Some ''Hi'', tool_calls = None\<rparr>]\<rparr>]"
  let ?create = "\<lambda>r :: request. (Inr (Stream ?cs (Some (RateLimitError ''429''))) :: exn + stream)"
  let ?self = "init ''model'' ''url'' 1"
  have h1: "?create (build_request ?self [] None None) = Inr (Stream ?cs (Some (RateLimitError ''429'')))"
    by simp
  have h2: "RateLimitError ''429'' = APIConnectionError ''429'' \<or> RateLimitError ''429'' = RateLimitError ''429''"
    by simp
  have h3: "support_tools ?self \<longrightarrow> (\<forall>c \<in> set ?cs. choices c \<noteq> [])"
    by simp
  show ?thesis
    using fault_yields_error_string [OF h1 h2 h3, of "\<lambda>d. d"] by simp
qed

text \<open>
  Claim C5, as stated, fails: after the text delta \<open>Hi\<close> and a connection error, the item
  yielded is not the text accumulated so far.
\<close>

theorem partial_text_counterexample:
  "yielded (chat_completion (\<lambda>d. d)
      (\<lambda>r. Inr (Stream [\<lparr>choices = [\<lparr>content = Some ''Hi'', tool_calls = None\<rparr>]\<rparr>]
                   (Some (APIConnectionError ''Connection error.''))))
      (init ''model'' ''url'' 1) [] None None)
     \<noteq> [Text ''Hi'' :: tool_data item]"
  by (simp add: chat_completion_def try_block_def process_chunk_def collect_text_def
        has_tool_calls_def init_def)

section \<open>The conversation turn\<close>

lemma propagates_call: "ev \<noteq> Cleanup \<Longrightarrow> ev \<noteq> Raised CancelledError \<Longrightarrow> propagates (call ev r)"
  by (auto simp: propagates_def call_def split: option.splits)

lemma propagates_call_value:
  "ev \<noteq> Cleanup \<Longrightarrow> ev \<noteq> Raised CancelledError \<Longrightarrow> propagates (call_value ev r)"
  by (auto simp: propagates_def call_value_def split: sum.splits)

lemma propagates_return: "propagates ([], Inr v)"
  by (simp add: propagates_def)

lemma propagates_and_then:
  assumes "propagates m" and "\<And>v. propagates (f v)"
  shows "propagates (and_then m f)"
proof (cases m)
  case (Pair t r)
  show ?thesis
  proof (cases r)
    case (Inl e)
    then show ?thesis using assms(1) Pair by (simp add: and_then_def propagates_def)
  next
    case (Inr v)
    obtain t' r' where f: "f v = (t', r')" by (cases "f v") auto
    have "propagates (t', r')" using assms(2) [of v] f by simp
    then show ?thesis
      using assms(1) Pair Inr f by (auto simp: and_then_def propagates_def)
  qed
qed

lemma consume_item_trace:
  assumes "consume_item env ctx full item = (t, full', r)"
  shows "Cleanup \<notin> set t \<and> (Raised CancelledError \<in> set t \<longrightarrow> r = Some CancelledError)"
  using assms
  by (cases item) (auto simp: Let_def split: if_splits option.splits)

lemma drain_trace:
  assumes "drain env ctx items ending full = (t, full', r)"
  shows "Cleanup \<notin> set t \<and> (Raised CancelledError \<in> set t \<longrightarrow> r = Some CancelledError)"
  using assms
proof (induction items arbitrary: full t full' r)
  case Nil
  then show ?case by (auto split: option.splits)
next
  case (Cons item items)
  obtain t1 full1 r1 where c: "consume_item env ctx full item = (t1, full1, r1)"
    by (cases "consume_item env ctx full item" rule: prod_cases3) auto
  note c1 = consume_item_trace [OF c]
  show ?case
  proof (cases r1)
    case (Some e)
    then show ?thesis using Cons.prems c c1 by auto
  next
    case None
    obtain t2 full2 r2 where d: "drain env ctx items ending full1 = (t2, full2, r2)"
      by (cases "drain env ctx items ending full1" rule: prod_cases3) auto
    note d1 = Cons.IH [OF d]
    have "t = t1 @ t2" "r = r2"
      using Cons.prems c None d by auto
    then show ?thesis using c1 d1 None by auto
  qed
qed

lemma propagates_collect_response: "propagates (collect_response env ctx input_text)"
proof -
  obtain items ending where a: "agent_chat env input_text = AgentStream items ending"
    by (cases "agent_chat env input_text") auto
  obtain t full r where d: "drain env ctx items ending [] = (t, full, r)"
    by (cases "drain env ctx items ending []" rule: prod_cases3) auto
  note d1 = drain_trace [OF d]
  show ?thesis
  proof (cases r)
    case None
    then show ?thesis using a d d1 by (simp add: collect_response_def propagates_def)
  next
    case (Some e)
    show ?thesis
    proof (cases "isinstance_Exception e")
      case False
      then show ?thesis using a d d1 Some by (auto simp: collect_response_def propagates_def)
    next
      case True
      then have "e \<noteq> CancelledError" by auto
      then show ?thesis
        using a d d1 Some True
        by (auto simp: collect_response_def propagates_def split: option.splits)
    qed
  qed
qed

lemma propagates_synthesize_and_finalize:
  "propagates (synthesize_and_finalize env ctx cleaned_response)"
  unfolding synthesize_and_finalize_def
  by (intro propagates_and_then propagates_return)
     (simp_all add: propagates_call propagates_call_value propagates_return propagates_and_then)

lemma propagates_turn_body: "propagates (turn_body env ctx metadata)"
  unfolding turn_body_def
  by (intro propagates_and_then propagates_collect_response propagates_synthesize_and_finalize)
     (simp_all add: propagates_call propagates_call_value propagates_return)

text \<open>
  Claim C9.  Whatever the collaborators do, on a normal return, on an exception and on a
  cancellation alike, the trace of a turn holds the cleanup exactly once, as its last event;
  and when a collaborator raises \<open>CancelledError\<close> during the turn, \<open>CancelledError\<close> is what
  reaches the caller, after the cleanup: it is neither swallowed nor turned into a return.
\<close>

theorem cleanup_once_and_cancellation_raised:
  "count_list (fst (process_single_conversation env ctx metadata)) Cleanup = 1
   \<and> last (fst (process_single_conversation env ctx metadata)) = Cleanup
   \<and> (Raised CancelledError \<in> set (fst (process_single_conversation env ctx metadata)) \<longrightarrow>
        snd (process_single_conversation env ctx metadata) = Inl CancelledError)"
proof -
  obtain t r where b: "turn_body env ctx metadata = (t, r)"
    by (cases "turn_body env ctx metadata") auto
  have p: "Cleanup \<notin> set t" "Raised CancelledError \<in> set t \<longrightarrow> r = Inl CancelledError"
    using propagates_turn_body [of env ctx metadata] b by (simp_all add: propagates_def)
  have q: "process_single_conversation env ctx metadata = (t @ [Cleanup], r)"
    using b by (simp add: process_single_conversation_def cleanup_conversation_def split: sum.splits exn.splits)
  have "count_list t Cleanup = 0" using p(1) by (simp add: count_list_0_iff)
  then show ?thesis using p(2) q by simp
qed

text \<open>
  The theorem at a turn that is cancelled while it waits for the agent's stream, after one
  sentence.
\<close>

theorem cleanup_once_and_cancellation_raised_witness:
  "count_list (fst (process_single_conversation
      \<lparr>send_conversation_start_signals = None, process_user_input = Inr ''hi'',
       store_message = (\<lambda>role content. None),
       agent_chat = (\<lambda>input_text. AgentStream [SentenceOutput [''Hello''] None] (Some CancelledError)),
       websocket_send = (\<lambda>d. None), speak = (\<lambda>text. Inr (Suc 0)), gather = None,
       finalize_conversation_turn = None\<rparr>
      \<lparr>history_uid = Some ''h1'', conf_uid = ''c1'', human_name = ''Human'',
       character_name = ''Mao'', avatar = ''mao.png''\<rparr> None)) Cleanup = 1
   \<and> fst (process_single_conversation
      \<lparr>send_conversation_start_signals = None, process_user_input = Inr ''hi'',
       store_message = (\<lambda>role content. None),
       agent_chat = (\<lambda>input_text. AgentStream [SentenceOutput [''Hello''] None] (Some CancelledError)),
       websocket_send = (\<lambda>d. None), speak = (\<lambda>text. Inr (Suc 0)), gather = None,
       finalize_conversation_turn = None\<rparr>
      \<lparr>history_uid = Some ''h1'', conf_uid = ''c1'', human_name = ''Human'',
       character_name = ''Mao'', avatar = ''mao.png''\<rparr> None)
     = [StartSignals, InputProcessed, Stored ''human'' ''hi'', Raised CancelledError, Cleanup]
   \<and> snd (process_single_conversation
      \<lparr>send_conversation_start_signals = None, process_user_input = Inr ''hi'',
       store_message = (\<lambda>role content. None),
       agent_chat = (\<lambda>input_text. AgentStream [SentenceOutput [''Hello''] None] (Some CancelledError)),
       websocket_send = (\<lambda>d. None), speak = (\<lambda>text. Inr (Suc 0)), gather = None,
       finalize_conversation_turn = None\<rparr>
      \<lparr>history_uid = Some ''h1'', conf_uid = ''c1'', human_name = ''Human'',
       character_name = ''Mao'', avatar = ''mao.png''\<rparr> None) = Inl CancelledError"
proof -
  let ?env = "\<lparr>send_conversation_start_signals = None, process_user_input = Inr ''hi'',
       store_message = (\<lambda>role content. None),
       agent_chat = (\<lambda>input_text. AgentStream [SentenceOutput [''Hello''] None] (Some CancelledError)),
       websocket_send = (\<lambda>d. None), speak = (\<lambda>text. Inr (Suc 0)), gather = None,
       finalize_conversation_turn = None\<rparr>"
  let ?ctx = "\<lparr>history_uid = Some ''h1'', conf_uid = ''c1'', human_name = ''Human'',
       character_name = ''Mao'', avatar = ''mao.png''\<rparr>"
  have t: "fst (process_single_conversation ?env ?ctx None)
             = [StartSignals, InputProcessed, Stored ''human'' ''hi'', Raised CancelledError, Cleanup]"
    by (simp add: process_single_conversation_def cleanup_conversation_def turn_body_def and_then_def call_def
          call_value_def collect_response_def truthy_def skip_history_def
          split: sum.splits exn.splits prod.splits)
  then have m: "Raised CancelledError \<in> set (fst (process_single_conversation ?env ?ctx None))"
    by simp
  note th = cleanup_once_and_cancellation_raised [of ?env ?ctx None]
  have c: "count_list (fst (process_single_conversation ?env ?ctx None)) Cleanup = 1"
    using th by (rule conjunct1)
  have r: "snd (process_single_conversation ?env ?ctx None) = Inl CancelledError"
    using th [THEN conjunct2, THEN conjunct2] m by (rule mp)
  show ?thesis
    using c t r by (intro conjI)
qed

lemma turn_body_streaming:
  assumes "send_conversation_start_signals env = None"
    and "process_user_input env = Inr input_text"
    and "truthy (history_uid ctx) \<and> \<not> skip_history metadata \<longrightarrow>
           store_message env ''human'' input_text = None"
  shows "turn_body env ctx metadata =
     (case and_then (collect_response env ctx input_text)
             (\<lambda>full_response. synthesize_and_finalize env ctx (clean_response full_response)) of
        (t, r) \<Rightarrow> (before_streaming ctx metadata input_text @ t, r))"
  using assms
  by (auto simp: turn_body_def and_then_def call_def call_value_def before_streaming_def
        split: prod.splits sum.splits)

lemma process_single_conversation_eq:
  "process_single_conversation env ctx metadata =
     (fst (turn_body env ctx metadata) @ [Cleanup], snd (turn_body env ctx metadata))"
  by (simp add: process_single_conversation_def cleanup_conversation_def split: prod.splits sum.splits exn.splits)

text \<open>
  Claim C8, as amended.  When steps 1 to 3 have returned and draining the agent's stream raises
  an exception of class \<open>Exception\<close> (so not a cancellation), the exception is caught and the
  error event with its message is sent to the client; provided that this send returns, the
  turn goes on to the normalisation with the text accumulated before the exception, and its
  result is that of steps 6 to 9 on the cleaned text.
\<close>

theorem streaming_exception_caught:
  assumes "send_conversation_start_signals env = None"
    and "process_user_input env = Inr input_text"
    and "truthy (history_uid ctx) \<and> \<not> skip_history metadata \<longrightarrow>
           store_message env ''human'' input_text = None"
    and "agent_chat env input_text = AgentStream items ending"
    and "drain env ctx items ending [] = (t, full_response, Some e)"
    and "isinstance_Exception e"
    and "websocket_send env (error_event e) = None"
  shows "process_single_conversation env ctx metadata =
     (before_streaming ctx metadata input_text @ t @ [Sent (error_event e)]
        @ fst (synthesize_and_finalize env ctx (clean_response full_response)) @ [Cleanup],
      snd (synthesize_and_finalize env ctx (clean_response full_response)))"
proof -
  have c: "collect_response env ctx input_text = (t @ [Sent (error_event e)], Inr full_response)"
    using assms(4-7) by (simp add: collect_response_def error_event_def)
  obtain t' r' where s: "synthesize_and_finalize env ctx (clean_response full_response) = (t', r')"
    by (cases "synthesize_and_finalize env ctx (clean_response full_response)") auto
  have "turn_body env ctx metadata =
          (before_streaming ctx metadata input_text @ t @ [Sent (error_event e)] @ t', r')"
    using turn_body_streaming [OF assms(1-3)] c s by (simp add: and_then_def)
  then show ?thesis
    using s by (simp add: process_single_conversation_eq)
qed

text \<open>
  The theorem at a stream whose second sentence raises after two sentences and a half.
\<close>

theorem streaming_exception_caught_witness:
  "process_single_conversation
      \<lparr>send_conversation_start_signals = None, process_user_input = Inr ''hi'',
       store_message = (\<lambda>role content. None),
       agent_chat = (\<lambda>input_text.
          AgentStream [SentenceOutput [''Hello[smile]'', ''friend.''] None,
                       SentenceOutput [''I am''] (Some (Exception ''boom''))] None),
       websocket_send = (\<lambda>d. None), speak = (\<lambda>text. Inr (Suc 0)), gather = None,
       finalize_conversation_turn = None\<rparr>
      \<lparr>history_uid = Some ''h1'', conf_uid = ''c1'', human_name = ''Human'',
       character_name = ''Mao'', avatar = ''mao.png''\<rparr> None
   = ([StartSignals, InputProcessed, Stored ''human'' ''hi'', Raised (Exception ''boom''),
       Sent [(''type'', ''error''), (''message'', ''boom'')],
       Spoke ''Hello friend. I am'', Gathered, Sent [(''type'', ''backend-synth-complete'')],
       Finalized, Stored ''ai'' ''Hello friend. I am'', Cleanup],
      Inr ''Hello friend. I am'')"
proof -
  let ?items = "[SentenceOutput [''Hello[smile]'', ''friend.''] None,
                 SentenceOutput [''I am''] (Some (Exception ''boom''))]"
  let ?env = "\<lparr>send_conversation_start_signals = None, process_user_input = Inr ''hi'',
       store_message = (\<lambda>role content. None),
       agent_chat = (\<lambda>input_text. AgentStream ?items None),
       websocket_send = (\<lambda>d. None), speak = (\<lambda>text. Inr (Suc 0)), gather = None,
       finalize_conversation_turn = None\<rparr>"
  let ?ctx = "\<lparr>history_uid = Some ''h1'', conf_uid = ''c1'', human_name = ''Human'',
       character_name = ''Mao'', avatar = ''mao.png''\<rparr>"
  have h1: "send_conversation_start_signals ?env = None" by simp
  have h2: "process_user_input ?env = Inr ''hi''" by simp
  have h3: "truthy (history_uid ?ctx) \<and> \<not> skip_history None \<longrightarrow>
              store_message ?env ''human'' ''hi'' = None" by simp
  have h4: "agent_chat ?env ''hi'' = AgentStream ?items None" by simp
  have h5: "drain ?env ?ctx ?items None []
              = ([Raised (Exception ''boom'')], ''Hello[smile]friend.I am'', Some (Exception ''boom''))"
    by simp
  have h6: "isinstance_Exception (Exception ''boom'')" by simp
  have h7: "websocket_send ?env (error_event (Exception ''boom'')) = None" by simp
  have cl: "clean_response ''Hello[smile]friend.I am'' = ''Hello friend. I am''"
    by code_simp
  have sf: "synthesize_and_finalize ?env ?ctx ''Hello friend. I am''
      = ([Spoke ''Hello friend. I am'', Gathered, Sent [(''type'', ''backend-synth-complete'')],
          Finalized, Stored ''ai'' ''Hello friend. I am''], Inr ''Hello friend. I am'')"
    by (simp add: synthesize_and_finalize_def and_then_def call_def call_value_def truthy_def)
  show ?thesis
    using streaming_exception_caught [OF h1 h2 h3 h4 h5 h6 h7]
    by (simp add: cl sf before_streaming_def error_event_def truthy_def skip_history_def)
qed

text \<open>
  Claim C8, as stated, fails: when the send of the error event raises as well (the socket is
  closed), no error event reaches the client, the normalisation is never reached, and the
  turn ends with the exception of the send.
\<close>

theorem streaming_never_aborts_counterexample:
  "snd (process_single_conversation
      \<lparr>send_conversation_start_signals = None, process_user_input = Inr ''hi'',
       store_message = (\<lambda>role content. None),
       agent_chat = (\<lambda>input_text.
          AgentStream [SentenceOutput [''Hello''] None] (Some (Exception ''boom''))),
       websocket_send = (\<lambda>d. Some (Exception ''socket closed'')),
       speak = (\<lambda>text. Inr (Suc 0)), gather = None, finalize_conversation_turn = None\<rparr>
      \<lparr>history_uid = Some ''h1'', conf_uid = ''c1'', human_name = ''Human'',
       character_name = ''Mao'', avatar = ''mao.png''\<rparr> None)
     = Inl (Exception ''socket closed'')
   \<and> fst (process_single_conversation
      \<lparr>send_conversation_start_signals = None, process_user_input = Inr ''hi'',
       store_message = (\<lambda>role content. None),
       agent_chat = (\<lambda>input_text.
          AgentStream [SentenceOutput [''Hello''] None] (Some (Exception ''boom''))),
       websocket_send = (\<lambda>d. Some (Exception ''socket closed'')),
       speak = (\<lambda>text. Inr (Suc 0)), gather = None, finalize_conversation_turn = None\<rparr>
      \<lparr>history_uid = Some ''h1'', conf_uid = ''c1'', human_name = ''Human'',
       character_name = ''Mao'', avatar = ''mao.png''\<rparr> None)
     = [StartSignals, InputProcessed, Stored ''human'' ''hi'', Raised (Exception ''boom''),
        Raised (Exception ''socket closed''), Cleanup]"
  by (simp add: process_single_conversation_def cleanup_conversation_def turn_body_def and_then_def call_def
        call_value_def collect_response_def truthy_def skip_history_def)

section \<open>Properties of the normalisation\<close>

lemma clean_response_wait_really_value:
  "clean_response ''Wait...what?Really'' = ''Wait. .. what? Really''"
  by code_simp

text \<open>
  Claim C7, as amended.  In \<open>clean_response("Wait...what?Really")\<close> a space is inserted after
  the \<open>?\<close>, and spaces are inserted at the run of dots as well, after its first dot and after
  its last: the result begins with \<open>Wait. .\<close> and ends with \<open>. what? Really\<close>.
\<close>

theorem clean_response_wait_really:
  "prefix ''Wait. .'' (clean_response ''Wait...what?Really'')
   \<and> suffix ''. what? Really'' (clean_response ''Wait...what?Really'')"
proof -
  have "clean_response ''Wait...what?Really'' = ''Wait. .'' @ ''. what? Really''"
    by (simp add: clean_response_wait_really_value)
  then show ?thesis
    by (metis prefixI suffixI)
qed

text \<open>
  Claim C7, as stated, fails: the result is not \<open>Wait...what? Really\<close>.
\<close>

theorem clean_response_wait_really_counterexample:
  "clean_response ''Wait...what?Really'' \<noteq> ''Wait...what? Really''"
  by code_simp

subsection \<open>White space: step 3\<close>

lemma is_space_blank [simp]: "is_space (CHR '' '')"
  by (simp add: is_space_def)

lemma not_space_brackets [simp]: "\<not> is_space (CHR ''['')" "\<not> is_space (CHR '']'')"
  by (simp_all add: is_space_def)

lemma is_space_line_feed [simp]: "is_space (CHR 0x0A)"
  by (simp add: is_space_def)

lemma not_punct_blank [simp]: "\<not> is_punct (CHR '' '')"
  by (simp add: is_punct_def)

lemma punct_not_space: "is_punct c \<Longrightarrow> \<not> is_space c"
  by (auto simp: is_punct_def is_space_def)

lemma nonspace_dropWhile: "filter (\<lambda>c. \<not> is_space c) (dropWhile is_space s) = filter (\<lambda>c. \<not> is_space c) s"
  by (induction s) simp_all

lemma nonspace_collapse_whitespace:
  "filter (\<lambda>c. \<not> is_space c) (collapse_whitespace s) = filter (\<lambda>c. \<not> is_space c) s"
  by (induction s rule: collapse_whitespace.induct) (simp_all add: nonspace_dropWhile)

lemma nonspace_strip: "filter (\<lambda>c. \<not> is_space c) (strip s) = filter (\<lambda>c. \<not> is_space c) s"
proof -
  have "filter (\<lambda>c. \<not> is_space c) (strip s)
          = rev (filter (\<lambda>c. \<not> is_space c) (dropWhile is_space (rev (dropWhile is_space s))))"
    by (simp add: strip_def rev_filter)
  also have "\<dots> = rev (filter (\<lambda>c. \<not> is_space c) (rev (dropWhile is_space s)))"
    by (simp only: nonspace_dropWhile)
  also have "\<dots> = filter (\<lambda>c. \<not> is_space c) s"
    by (simp add: rev_filter nonspace_dropWhile)
  finally show ?thesis .
qed

lemma nonspace_space_after_punct:
  "filter (\<lambda>c. \<not> is_space c) (space_after_punct s) = filter (\<lambda>c. \<not> is_space c) s"
  by (induction s rule: space_after_punct.induct) simp_all

lemma has_pair_nonspace: "has_pair (filter (\<lambda>c. \<not> is_space c) s) = has_pair s"
  by (induction s) auto

lemma hd_collapse_whitespace:
  "s \<noteq> [] \<Longrightarrow> \<not> is_space (hd s) \<Longrightarrow> hd (collapse_whitespace s) = hd s"
  by (cases s) simp_all

lemma collapse_whitespace_Nil: "collapse_whitespace s = [] \<longleftrightarrow> s = []"
  by (cases s) simp_all

lemma hd_dropWhile_space: "dropWhile is_space s \<noteq> [] \<Longrightarrow> \<not> is_space (hd (dropWhile is_space s))"
  using hd_dropWhile [of is_space s] by simp

lemma spaced_collapse_whitespace: "spaced (collapse_whitespace s)"
proof (induction s rule: collapse_whitespace.induct)
  case 1
  then show ?case by simp
next
  case (2 c cs)
  show ?case
  proof (cases "is_space c")
    case True
    let ?r = "dropWhile is_space cs"
    have "collapse_whitespace ?r = [] \<or> \<not> is_space (hd (collapse_whitespace ?r))"
    proof (cases "?r = []")
      case True
      have "collapse_whitespace ?r = []" by (simp only: True collapse_whitespace.simps)
      then show ?thesis by (rule disjI1)
    next
      case False
      then have "\<not> is_space (hd ?r)" by (rule hd_dropWhile_space)
      then show ?thesis using False by (simp add: hd_collapse_whitespace)
    qed
    then show ?thesis using True 2 by auto
  next
    case False
    then show ?thesis using 2 by simp
  qed
qed

lemma spaced_append: "spaced (u @ v) \<Longrightarrow> spaced u \<and> spaced v"
proof (induction u)
  case Nil
  then show ?case by simp
next
  case (Cons c u)
  then show ?case by (cases u) auto
qed

lemma spaced_dropWhile: "spaced s \<Longrightarrow> spaced (dropWhile is_space s)"
  using spaced_append [of "takeWhile is_space s" "dropWhile is_space s"] by simp

lemma rev_dropWhile_rev: "rev (dropWhile P (rev s)) @ rev (takeWhile P (rev s)) = s"
proof -
  have "rev (takeWhile P (rev s) @ dropWhile P (rev s)) = s" by simp
  then show ?thesis by (simp only: rev_append)
qed

lemma spaced_strip: "spaced s \<Longrightarrow> spaced (strip s)"
proof -
  assume "spaced s"
  then have d: "spaced (dropWhile is_space s)" by (rule spaced_dropWhile)
  let ?d = "dropWhile is_space s"
  have "spaced (rev (dropWhile is_space (rev ?d)) @ rev (takeWhile is_space (rev ?d)))"
    using d by (simp only: rev_dropWhile_rev)
  then show ?thesis
    unfolding strip_def using spaced_append by blast
qed

lemma strip_ends:
  "strip s = [] \<or> (\<not> is_space (hd (strip s)) \<and> \<not> is_space (last (strip s)))"
proof (cases "strip s = []")
  case True
  then show ?thesis by simp
next
  case False
  let ?d = "dropWhile is_space s"
  let ?e = "dropWhile is_space (rev ?d)"
  have s: "strip s = rev ?e" by (simp add: strip_def)
  have e: "?e \<noteq> []" using False s by simp
  then have l: "\<not> is_space (hd ?e)" by (rule hd_dropWhile_space)
  have "last (strip s) = hd ?e" using s e by (simp add: last_rev)
  then have la: "\<not> is_space (last (strip s))" using l by simp
  have dn: "?d \<noteq> []"
  proof
    assume a: "?d = []"
    have "?e = []" unfolding a by simp
    then show False using e by simp
  qed
  then have hd: "\<not> is_space (hd ?d)" by (rule hd_dropWhile_space)
  have "?d = strip s @ rev (takeWhile is_space (rev ?d))"
    using rev_dropWhile_rev [of is_space ?d] by (simp add: strip_def)
  then have "hd ?d = hd (strip s)" using False by (metis hd_append2)
  then show ?thesis using hd la by simp
qed

lemma collapse_whitespace_fixed:
  "spaced s \<Longrightarrow> s = [] \<or> \<not> is_space (last s) \<Longrightarrow> collapse_whitespace s = s"
proof (induction s rule: collapse_whitespace.induct)
  case 1
  then show ?case by simp
next
  case (2 c cs)
  show ?case
  proof (cases "is_space c")
    case True
    then have c: "c = CHR '' ''" and n: "cs = [] \<or> \<not> is_space (hd cs)"
      using "2.prems"(1) by simp_all
    have "cs \<noteq> []" using True "2.prems"(2) by auto
    then have d: "dropWhile is_space cs = cs" using n by (cases cs) auto
    have "collapse_whitespace cs = cs"
      using "2.IH"(1) [OF True] d "2.prems" \<open>cs \<noteq> []\<close> by simp
    then show ?thesis using True c d by simp
  next
    case False
    have "collapse_whitespace cs = cs"
      using "2.IH"(2) [OF False] "2.prems" by (cases cs) auto
    then show ?thesis using False by simp
  qed
qed

lemma strip_fixed:
  "s = [] \<or> (\<not> is_space (hd s) \<and> \<not> is_space (last s)) \<Longrightarrow> strip s = s"
proof (cases s)
  case Nil
  then show ?thesis by (simp add: strip_def)
next
  case (Cons c cs)
  assume "s = [] \<or> (\<not> is_space (hd s) \<and> \<not> is_space (last s))"
  then have h: "\<not> is_space (hd s)" and l: "\<not> is_space (last s)" using Cons by auto
  have d: "dropWhile is_space s = s" using h Cons by simp
  have "s = butlast s @ [last s]" using Cons by simp
  then have "rev s = rev (butlast s @ [last s])" by (rule arg_cong)
  then have r: "rev s = last s # rev (butlast s)" by (simp only: rev_append rev.simps append.simps)
  have "dropWhile is_space (last s # rev (butlast s)) = last s # rev (butlast s)"
    using l by simp
  then have "dropWhile is_space (rev s) = rev s" by (simp only: r)
  then show ?thesis using d by (simp add: strip_def)
qed

lemma normalized_step3: "normalized (strip (collapse_whitespace s))"
  unfolding normalized_def
  using spaced_strip [OF spaced_collapse_whitespace] strip_ends by blast

lemma step3_fixed: "normalized s \<Longrightarrow> strip (collapse_whitespace s) = s"
  unfolding normalized_def
  using collapse_whitespace_fixed [of s] strip_fixed [of s] by auto

subsection \<open>Annotations: step 1\<close>

lemma find_close_suffix: "find_close t = Some u \<Longrightarrow> suffix u t"
  by (induction t) (auto split: if_splits intro: suffix_ConsI)

lemma find_close_closes: "find_close t = Some u \<Longrightarrow> CHR '']'' \<in> set t"
  by (induction t) (auto split: if_splits)

lemma match_annotation_open:
  assumes "match_annotation s = Some rest"
  obtains t u where "dropWhile is_space s = CHR ''['' # t" and "find_close t = Some u"
    and "rest = dropWhile is_space u"
  using assms
  by (auto simp: match_annotation_def split: list.splits if_splits option.splits)

lemma match_annotation_suffix:
  assumes "match_annotation s = Some rest"
  shows "suffix rest s"
proof -
  obtain t u where d: "dropWhile is_space s = CHR ''['' # t" and f: "find_close t = Some u"
    and r: "rest = dropWhile is_space u"
    using assms by (rule match_annotation_open)
  have "suffix rest u" using r by (simp add: suffix_dropWhile)
  also have "suffix u t" using f by (rule find_close_suffix)
  also have "suffix t (CHR ''['' # t)" by (simp add: suffix_ConsI)
  also have "suffix (CHR ''['' # t) s" using suffix_dropWhile [of is_space s] d by simp
  finally show ?thesis .
qed

lemma has_pair_suffix: "suffix r s \<Longrightarrow> has_pair r \<Longrightarrow> has_pair s"
  by (induction s) (auto simp: suffix_Cons)

lemma match_annotation_has_pair:
  assumes "match_annotation s = Some rest"
  shows "has_pair s"
proof -
  obtain t u where d: "dropWhile is_space s = CHR ''['' # t" and f: "find_close t = Some u"
    using assms by (rule match_annotation_open)
  have "has_pair (CHR ''['' # t)" using find_close_closes [OF f] by simp
  moreover have "suffix (CHR ''['' # t) s" using suffix_dropWhile [of is_space s] d by simp
  ultimately show ?thesis using has_pair_suffix by blast
qed

lemma strip_annotations_fixed: "\<not> has_pair s \<Longrightarrow> strip_annotations s = s"
proof (induction s)
  case Nil
  then show ?case by simp
next
  case (Cons c cs)
  have "match_annotation (c # cs) = None"
  proof (cases "match_annotation (c # cs)")
    case (Some rest)
    then have "has_pair (c # cs)" by (rule match_annotation_has_pair)
    then show ?thesis using Cons.prems by blast
  qed simp
  moreover have "\<not> has_pair cs" using Cons.prems by simp
  ultimately show ?case using Cons.IH by simp
qed

lemma set_strip_annotations: "set (strip_annotations s) \<subseteq> insert (CHR '' '') (set s)"
proof (induction s rule: strip_annotations.induct)
  case 1
  then show ?case by simp
next
  case (2 c cs)
  show ?case
  proof (cases "match_annotation (c # cs)")
    case None
    then show ?thesis using 2 by auto
  next
    case (Some rest)
    have "set rest \<subseteq> set (c # cs)"
      using match_annotation_suffix [OF Some] by (rule set_mono_suffix)
    then show ?thesis using Some "2.IH"(2) [OF Some] by auto
  qed
qed

lemma open_across_lines_suffix: "suffix r s \<Longrightarrow> open_across_lines r \<Longrightarrow> open_across_lines s"
  by (induction s) (auto simp: suffix_Cons)

lemma no_pair_strip_annotations:
  "\<not> open_across_lines s \<Longrightarrow> \<not> has_pair (strip_annotations s)"
proof (induction s rule: strip_annotations.induct)
  case 1
  then show ?case by simp
next
  case (2 c cs)
  show ?case
  proof (cases "match_annotation (c # cs)")
    case (Some rest)
    have "\<not> open_across_lines rest"
      using "2.prems" open_across_lines_suffix [OF match_annotation_suffix [OF Some]] by blast
    then show ?thesis using Some "2.IH"(2) by simp
  next
    case None
    have ih: "\<not> has_pair (strip_annotations cs)"
      using "2.IH"(1) [OF None] "2.prems" by simp
    have "\<not> (c = CHR ''['' \<and> CHR '']'' \<in> set (strip_annotations cs))"
    proof
      assume a: "c = CHR ''['' \<and> CHR '']'' \<in> set (strip_annotations cs)"
      then have in_cs: "CHR '']'' \<in> set cs" using set_strip_annotations [of cs] by auto
      have "find_close cs = None"
        using None a by (simp add: match_annotation_def split: option.splits)
      then show False using a in_cs "2.prems" by simp
    qed
    then show ?thesis using None ih by simp
  qed
qed

subsection \<open>Punctuation: step 2\<close>

lemma tight_Cons: "tight (c # s) = ((s \<noteq> [] \<and> is_punct c \<and> \<not> is_space (hd s)) \<or> tight s)"
  by (cases s) auto

lemma punct_run_Cons: "punct_run s \<Longrightarrow> punct_run (c # s)"
  by (cases s rule: punct_run.cases) auto

lemma punct_run_suffix: "suffix r s \<Longrightarrow> punct_run r \<Longrightarrow> punct_run s"
  by (induction s) (auto simp: suffix_Cons punct_run_Cons)

lemma punct_run_skip: "\<not> is_punct c \<Longrightarrow> punct_run (c # s) = punct_run s"
  by (cases s rule: punct_run.cases) auto

lemma strip_annotations_head:
  assumes "strip_annotations s = q # r" and "\<not> is_space q"
  shows "\<exists>s'. s = q # s' \<and> r = strip_annotations s'"
proof (cases s)
  case Nil
  then show ?thesis using assms by simp
next
  case (Cons c cs)
  show ?thesis
  proof (cases "match_annotation (c # cs)")
    case None
    then show ?thesis using assms Cons by simp
  next
    case (Some rest)
    then have "q = CHR '' ''" using assms(1) Cons by simp
    then show ?thesis using assms(2) by simp
  qed
qed

lemma punct_run_strip_annotations:
  "punct_run (strip_annotations s) \<Longrightarrow> punct_run s"
proof (induction s rule: strip_annotations.induct)
  case 1
  then show ?case by simp
next
  case (2 c cs)
  show ?case
  proof (cases "match_annotation (c # cs)")
    case (Some rest)
    then have "punct_run (strip_annotations rest)"
      using "2.prems" by (simp add: punct_run_skip)
    then have "punct_run rest" using "2.IH"(2) [OF Some] by simp
    then show ?thesis using punct_run_suffix [OF match_annotation_suffix [OF Some]] by simp
  next
    case None
    then have p: "punct_run (c # strip_annotations cs)" using "2.prems" by simp
    show ?thesis
    proof (cases "punct_run (strip_annotations cs)")
      case True
      then show ?thesis using "2.IH"(1) [OF None] by (simp add: punct_run_Cons)
    next
      case False
      then obtain q d r where sa: "strip_annotations cs = q # d # r"
        and t: "is_punct c" "is_punct q" "\<not> is_space d"
        using p by (cases "c # strip_annotations cs" rule: punct_run.cases) auto
      obtain cs' where cs: "cs = q # cs'" and r1: "d # r = strip_annotations cs'"
        using strip_annotations_head [OF sa] punct_not_space [OF t(2)] by auto
      obtain cs'' where "cs' = d # cs''"
        using strip_annotations_head [OF r1 [symmetric] t(3)] by auto
      then show ?thesis using cs t by simp
    qed
  qed
qed

lemma space_after_punct_Nil: "space_after_punct s = [] \<longleftrightarrow> s = []"
  by (cases s rule: space_after_punct.cases) auto

lemma hd_space_after_punct: "hd (space_after_punct s) = hd s"
  by (cases s rule: space_after_punct.cases) auto

lemma no_tight_space_after_punct: "\<not> punct_run s \<Longrightarrow> \<not> tight (space_after_punct s)"
proof (induction s rule: space_after_punct.induct)
  case (1 p c cs)
  show ?case
  proof (cases "is_punct p \<and> \<not> is_space c")
    case True
    have n: "\<not> punct_run cs"
      using "1.prems" punct_run_Cons [of cs c] punct_run_Cons [of "c # cs" p] by blast
    have ih: "\<not> tight (space_after_punct cs)" using "1.IH"(1) [OF True n] .
    have "\<not> (cs \<noteq> [] \<and> is_punct c \<and> \<not> is_space (hd cs))"
      using "1.prems" True by (cases cs) auto
    then have "\<not> tight (c # space_after_punct cs)"
      using ih by (simp add: tight_Cons space_after_punct_Nil hd_space_after_punct)
    then show ?thesis using True by simp
  next
    case False
    have n: "\<not> punct_run (c # cs)" using "1.prems" punct_run_Cons by blast
    have ih: "\<not> tight (space_after_punct (c # cs))" using "1.IH"(2) [OF False n] .
    have h: "hd (space_after_punct (c # cs)) = c" by (simp add: hd_space_after_punct)
    have e: "space_after_punct (p # c # cs) = p # space_after_punct (c # cs)"
      using False by auto
    have "\<not> tight (p # space_after_punct (c # cs))"
      using False ih h by (auto simp: tight_Cons simp del: space_after_punct.simps)
    then show ?thesis unfolding e .
  qed
qed simp_all

lemma space_after_punct_fixed: "\<not> tight s \<Longrightarrow> space_after_punct s = s"
  by (induction s rule: space_after_punct.induct) auto

lemma tight_append_left: "tight v \<Longrightarrow> tight (u @ v)"
  by (induction u) (simp_all add: tight_Cons)

lemma tight_append_right: "tight u \<Longrightarrow> tight (u @ v)"
  by (induction u rule: tight.induct) auto

lemma tight_dropWhile: "tight (dropWhile is_space s) \<Longrightarrow> tight s"
  using tight_append_left [of "dropWhile is_space s" "takeWhile is_space s"] by simp

lemma tight_strip: "tight (strip s) \<Longrightarrow> tight s"
proof -
  assume t: "tight (strip s)"
  let ?d = "dropWhile is_space s"
  have "?d = strip s @ rev (takeWhile is_space (rev ?d))"
    using rev_dropWhile_rev [of is_space ?d] by (simp add: strip_def)
  then have "tight ?d" using tight_append_right [OF t] by metis
  then show ?thesis by (rule tight_dropWhile)
qed

lemma tight_collapse_whitespace: "tight (collapse_whitespace s) \<Longrightarrow> tight s"
proof (induction s rule: collapse_whitespace.induct)
  case 1
  then show ?case by simp
next
  case (2 c cs)
  show ?case
  proof (cases "is_space c")
    case True
    then have "tight (collapse_whitespace (dropWhile is_space cs))"
      using "2.prems" by (simp add: tight_Cons)
    then have "tight (dropWhile is_space cs)" using "2.IH"(1) [OF True] by simp
    then have "tight cs" by (rule tight_dropWhile)
    then show ?thesis by (simp add: tight_Cons)
  next
    case False
    then have t: "tight (c # collapse_whitespace cs)" using "2.prems" by simp
    show ?thesis
    proof (cases "tight (collapse_whitespace cs)")
      case True
      then show ?thesis using "2.IH"(2) [OF False] by (simp add: tight_Cons)
    next
      case nt: False
      then have h: "collapse_whitespace cs \<noteq> []" "is_punct c" "\<not> is_space (hd (collapse_whitespace cs))"
        using t by (simp_all add: tight_Cons)
      then obtain d ds where cs: "cs = d # ds" by (cases cs) auto
      have "\<not> is_space d"
      proof
        assume "is_space d"
        then have "hd (collapse_whitespace cs) = CHR '' ''" using cs by simp
        then show False using h(3) by simp
      qed
      then show ?thesis using cs h(2) by simp
    qed
  qed
qed

subsection \<open>The three steps together\<close>

lemma clean_response_steps:
  "clean_response x = strip (collapse_whitespace (space_after_punct (strip_annotations x)))"
  by (simp add: clean_response_def)

lemma clean_response_fixed:
  assumes "\<not> has_pair y" and "\<not> tight y" and "normalized y"
  shows "clean_response y = y"
  using assms
  by (simp add: clean_response_steps strip_annotations_fixed space_after_punct_fixed step3_fixed)

lemma normalized_clean_response: "normalized (clean_response x)"
  by (simp add: clean_response_steps normalized_step3)

lemma has_pair_clean_response: "has_pair (clean_response x) = has_pair (strip_annotations x)"
proof -
  have "filter (\<lambda>c. \<not> is_space c) (clean_response x)
          = filter (\<lambda>c. \<not> is_space c) (strip_annotations x)"
    by (simp add: clean_response_steps nonspace_strip nonspace_collapse_whitespace
          nonspace_space_after_punct)
  then show ?thesis by (metis has_pair_nonspace)
qed

lemma tight_clean_response:
  "tight (clean_response x) \<Longrightarrow> tight (space_after_punct (strip_annotations x))"
  unfolding clean_response_steps
  using tight_strip tight_collapse_whitespace by blast

subsection \<open>Texts that the normalisation changes\<close>

lemma count_open_simps [simp]:
  "count_open [] = 0"
  "count_open (c # cs) = (if c = CHR ''['' then Suc (count_open cs) else count_open cs)"
  by (simp_all add: count_open_def)

lemma count_open_nonspace: "count_open (filter (\<lambda>c. \<not> is_space c) s) = count_open s"
  by (induction s) auto

lemma count_open_suffix: "suffix r s \<Longrightarrow> count_open r \<le> count_open s"
  by (induction s) (auto simp: suffix_Cons le_SucI)

lemma count_open_strip_annotations: "count_open (strip_annotations s) \<le> count_open s"
proof (induction s rule: strip_annotations.induct)
  case 1
  then show ?case by simp
next
  case (2 c cs)
  show ?case
  proof (cases "match_annotation (c # cs)")
    case None
    then show ?thesis using "2.IH"(1) by simp
  next
    case (Some rest)
    have "count_open rest \<le> count_open (c # cs)"
      using match_annotation_suffix [OF Some] by (rule count_open_suffix)
    then show ?thesis using Some "2.IH"(2) [OF Some] by simp
  qed
qed

lemma match_annotation_count:
  assumes "match_annotation s = Some rest"
  shows "count_open rest < count_open s"
proof -
  obtain t u where d: "dropWhile is_space s = CHR ''['' # t" and f: "find_close t = Some u"
    and r: "rest = dropWhile is_space u"
    using assms by (rule match_annotation_open)
  have "suffix rest u" using r by (simp add: suffix_dropWhile)
  then have "suffix rest t" using find_close_suffix [OF f] suffix_order.trans by blast
  then have "count_open rest \<le> count_open t" by (rule count_open_suffix)
  moreover have "count_open (CHR ''['' # t) \<le> count_open s"
    using suffix_dropWhile [of is_space s] d count_open_suffix by metis
  ultimately show ?thesis by simp
qed

lemma find_close_on_line:
  "CHR 0x0A \<notin> set t \<Longrightarrow> CHR '']'' \<in> set t \<Longrightarrow> find_close t \<noteq> None"
  by (induction t) auto

lemma strip_annotations_removes:
  "has_pair s \<Longrightarrow> CHR 0x0A \<notin> set s \<Longrightarrow> count_open (strip_annotations s) < count_open s"
proof (induction s rule: strip_annotations.induct)
  case 1
  then show ?case by simp
next
  case (2 c cs)
  show ?case
  proof (cases "match_annotation (c # cs)")
    case (Some rest)
    have "count_open (strip_annotations rest) \<le> count_open rest"
      by (rule count_open_strip_annotations)
    then show ?thesis using Some match_annotation_count [OF Some] by simp
  next
    case None
    have "\<not> (c = CHR ''['' \<and> CHR '']'' \<in> set cs)"
    proof
      assume a: "c = CHR ''['' \<and> CHR '']'' \<in> set cs"
      then have "find_close cs \<noteq> None" using "2.prems"(2) find_close_on_line by simp
      then show False using None a by (auto simp: match_annotation_def)
    qed
    then have "has_pair cs" using "2.prems"(1) by auto
    then have "count_open (strip_annotations cs) < count_open cs"
      using "2.IH"(1) [OF None] "2.prems"(2) by simp
    then show ?thesis using None by simp
  qed
qed

lemma spaced_blank: "spaced s \<Longrightarrow> c \<in> set s \<Longrightarrow> is_space c \<Longrightarrow> c = CHR '' ''"
  by (induction s) auto

lemma normalized_no_line_feed: "normalized s \<Longrightarrow> CHR 0x0A \<notin> set s"
  using spaced_blank [of s "CHR 0x0A"] by (auto simp: normalized_def)

lemma count_open_clean_response: "count_open (clean_response y) = count_open (strip_annotations y)"
proof -
  have "filter (\<lambda>c. \<not> is_space c) (clean_response y)
          = filter (\<lambda>c. \<not> is_space c) (strip_annotations y)"
    by (simp add: clean_response_steps nonspace_strip nonspace_collapse_whitespace
          nonspace_space_after_punct)
  then show ?thesis by (metis count_open_nonspace)
qed

lemma has_pair_changes:
  assumes "has_pair y" and "normalized y"
  shows "clean_response y \<noteq> y"
proof -
  have "count_open (clean_response y) < count_open y"
    using strip_annotations_removes [OF assms(1) normalized_no_line_feed [OF assms(2)]]
    by (simp add: count_open_clean_response)
  then show ?thesis by auto
qed

lemma length_space_after_punct: "length s \<le> length (space_after_punct s)"
  by (induction s rule: space_after_punct.induct) auto

lemma tight_lengthens: "tight s \<Longrightarrow> length s < length (space_after_punct s)"
proof (induction s rule: space_after_punct.induct)
  case (1 p c cs)
  show ?case
  proof (cases "is_punct p \<and> \<not> is_space c")
    case True
    then show ?thesis using length_space_after_punct [of cs] by simp
  next
    case False
    then have "tight (c # cs)" using "1.prems" by auto
    then have "length (c # cs) < length (space_after_punct (c # cs))"
      using "1.IH"(2) [OF False] by simp
    moreover have "space_after_punct (p # c # cs) = p # space_after_punct (c # cs)"
      using False by auto
    ultimately show ?thesis by simp
  qed
qed simp_all

lemma last_space_after_punct: "s \<noteq> [] \<Longrightarrow> last (space_after_punct s) = last s"
  by (induction s rule: space_after_punct.induct) (auto simp: space_after_punct_Nil)

lemma spaced_space_after_punct: "spaced s \<Longrightarrow> spaced (space_after_punct s)"
proof (induction s rule: space_after_punct.induct)
  case (1 p c cs)
  show ?case
  proof (cases "is_punct p \<and> \<not> is_space c")
    case True
    have "spaced cs" using "1.prems" by simp
    then have "spaced (space_after_punct cs)" using "1.IH"(1) [OF True] by simp
    then show ?thesis using True punct_not_space [of p] by simp
  next
    case False
    have e: "space_after_punct (p # c # cs) = p # space_after_punct (c # cs)"
      using False by auto
    have "spaced (c # cs)" using "1.prems" by simp
    then have ih: "spaced (space_after_punct (c # cs))" using "1.IH"(2) [OF False] by simp
    have h: "hd (space_after_punct (c # cs)) = c" by (simp add: hd_space_after_punct)
    have n: "space_after_punct (c # cs) \<noteq> []" by (simp add: space_after_punct_Nil)
    have "spaced (p # space_after_punct (c # cs))"
      using "1.prems" ih h n by (simp del: space_after_punct.simps)
    then show ?thesis unfolding e .
  qed
qed simp_all

lemma normalized_space_after_punct: "normalized s \<Longrightarrow> normalized (space_after_punct s)"
  unfolding normalized_def
  using spaced_space_after_punct [of s] hd_space_after_punct [of s] last_space_after_punct [of s]
  by (auto simp: space_after_punct_Nil)

lemma tight_changes:
  assumes "\<not> has_pair y" and "tight y" and "normalized y"
  shows "clean_response y \<noteq> y"
proof -
  have "clean_response y = strip (collapse_whitespace (space_after_punct y))"
    using assms(1) by (simp add: clean_response_steps strip_annotations_fixed)
  also have "\<dots> = space_after_punct y"
    using normalized_space_after_punct [OF assms(3)] by (rule step3_fixed)
  finally have "length (clean_response y) = length (space_after_punct y)" by simp
  then show ?thesis using tight_lengthens [OF assms(2)] by auto
qed

lemma clean_response_fixed_iff:
  assumes "normalized y"
  shows "clean_response y = y \<longleftrightarrow> \<not> has_pair y \<and> \<not> tight y"
  using assms clean_response_fixed has_pair_changes tight_changes by blast

lemma clean_response_twice_iff:
  "clean_response (clean_response x) = clean_response x
     \<longleftrightarrow> \<not> has_pair (clean_response x) \<and> \<not> tight (clean_response x)"
  using normalized_clean_response by (rule clean_response_fixed_iff)

text \<open>
  The single pass of each step is enough, and a second cleaning changes nothing, on every
  text in which no \<open>[\<close> is left open on its line while a \<open>]\<close> follows on a later line, and in
  which no two punctuation characters in a row stand directly before a character that is not
  white space.
\<close>

lemma clean_response_idempotent_when:
  assumes "\<not> open_across_lines x" and "\<not> punct_run x"
  shows "clean_response (clean_response x) = clean_response x"
proof -
  have "\<not> has_pair (clean_response x)"
    using assms(1) by (simp add: has_pair_clean_response no_pair_strip_annotations)
  moreover have "\<not> punct_run (strip_annotations x)"
    using assms(2) punct_run_strip_annotations by blast
  then have "\<not> tight (clean_response x)"
    using no_tight_space_after_punct tight_clean_response by blast
  ultimately show ?thesis
    using normalized_clean_response by (rule clean_response_fixed)
qed

text \<open>
  For instance at a text with an annotation, a full stop without a blank after it, and two
  punctuation characters at its end.
\<close>

lemma clean_response_idempotent_when_example:
  "\<not> open_across_lines ''hi [wave] there.How are you?!''
   \<and> \<not> punct_run ''hi [wave] there.How are you?!''
   \<and> clean_response ''hi [wave] there.How are you?!'' = ''hi there. How are you? !''
   \<and> clean_response ''hi there. How are you? !'' = ''hi there. How are you? !''"
proof -
  have h1: "\<not> open_across_lines ''hi [wave] there.How are you?!''"
    by simp
  have h2: "\<not> punct_run ''hi [wave] there.How are you?!''"
    by (simp add: is_punct_def is_space_def)
  have c: "clean_response ''hi [wave] there.How are you?!'' = ''hi there. How are you? !''"
    by code_simp
  have "clean_response (clean_response ''hi [wave] there.How are you?!'')
          = clean_response ''hi [wave] there.How are you?!''"
    using h1 h2 by (rule clean_response_idempotent_when)
  then show ?thesis using h1 h2 c by simp
qed

text \<open>
  Claim C6 says that cleaning twice gives what cleaning once gives.  The code breaks it at
  \<open>a.,b\<close>: the match of line 36 at the full stop consumes the comma as the character after
  it, so the first cleaning gives \<open>a. ,b\<close>, where the comma stands directly before \<open>b\<close>
  although step 2 of the docstring is to ensure a space after punctuation; the second cleaning
  then gives \<open>a. , b\<close>.
\<close>

theorem clean_response_twice_differs:
  "clean_response ''a.,b'' = ''a. ,b''
   \<and> tight (clean_response ''a.,b'')
   \<and> clean_response (clean_response ''a.,b'') = ''a. , b''
   \<and> clean_response (clean_response ''a.,b'') \<noteq> clean_response ''a.,b''"
proof -
  have one: "clean_response ''a.,b'' = ''a. ,b''"
    by code_simp
  have two: "clean_response ''a. ,b'' = ''a. , b''"
    by code_simp
  have t: "tight (clean_response ''a.,b'')"
    unfolding one by code_simp
  have three: "clean_response (clean_response ''a.,b'') = ''a. , b''"
    by (simp only: one two)
  have four: "clean_response (clean_response ''a.,b'') \<noteq> clean_response ''a.,b''"
    by (simp add: one two)
  show ?thesis
    using one t three four by (intro conjI)
qed

end
